theory Spec2Isabelle
  imports Complex_Main
begin

section \<open>ASI MS-2000-500-CP stage controller: a shallow embedding\<close>

text \<open>
  The development follows \<^verbatim>\<open>asi_MS_2000_500_CP.py\<close>, class \<^verbatim>\<open>Controller\<close>.

  \<^item> The object is a record; every method takes it and returns it updated, together with
    either the value returned or the exception raised. The serial port is part of the
    record: the lines written so far, and the lines the device will answer.
  \<^item> Python numbers (\<^verbatim>\<open>int\<close> and \<^verbatim>\<open>float\<close>) are exact rationals: the binary
    rounding of floating point, infinities and NaN are not modelled.
  \<^item> Every \<^verbatim>\<open>assert\<close> of the source raises \<^verbatim>\<open>AssertionError\<close>; the model names the
    assertion that failed by the constructor of \<open>error\<close> it returns.
  \<^item> Printing (\<^verbatim>\<open>verbose\<close>, \<^verbatim>\<open>very_verbose\<close>) has no effect on the state and is left out.
  \<^item> Names keep the source's spelling without the leading underscore.
\<close>

subsection \<open>Exceptions\<close>

datatype error =
    UnicodeEncodeError      \<comment> \<open>\<^verbatim>\<open>bytes(cmd, encoding='ascii')\<close>\<close>
  | UnicodeDecodeError      \<comment> \<open>\<^verbatim>\<open>.decode('ascii')\<close>\<close>
  | PortNotOpenError        \<comment> \<open>\<^verbatim>\<open>port.write\<close> on a closed port\<close>
  | NoResponse              \<comment> \<open>\<^verbatim>\<open>assert response != ''\<close>\<close>
  | ProtocolError           \<comment> \<open>\<^verbatim>\<open>assert tuple(axes) == self.axes\<close>\<close>
  | FramingError            \<comment> \<open>\<^verbatim>\<open>assert self.port.in_waiting == 0\<close>\<close>
  | ModeNotAllowed          \<comment> \<open>\<^verbatim>\<open>assert mode in mode2code\<close>, \<^verbatim>\<open>assert state in (...)\<close>\<close>
  | LengthError             \<comment> \<open>\<^verbatim>\<open>assert len(...) == len(self.axes)\<close>\<close>
  | TypeCheckError          \<comment> \<open>\<^verbatim>\<open>assert type(v) is int or type(v) is float\<close>\<close>
  | RangeError              \<comment> \<open>an assertion comparing a value with its bounds\<close>
  | VerificationError       \<comment> \<open>an assertion comparing a get with the value set\<close>
  | MotionToleranceError    \<comment> \<open>the assertions of \<^verbatim>\<open>_finish_moving\<close>\<close>
  | ValueError              \<comment> \<open>\<^verbatim>\<open>float(s)\<close>, \<^verbatim>\<open>int(s)\<close>, unpacking \<^verbatim>\<open>a.split('=')\<close>\<close>
  | IndexError              \<comment> \<open>a tuple or list read out of range\<close>
  | KeyError                \<comment> \<open>a dictionary read at a missing key\<close>
  | AttributeError          \<comment> \<open>a string method called on a response that is no string\<close>
  | ZeroDivisionError       \<comment> \<open>\<^verbatim>\<open>float(count) / factor\<close>\<close>

definition bindE :: "error + 'a \<Rightarrow> ('a \<Rightarrow> error + 'b) \<Rightarrow> error + 'b" where
  "bindE r f = (case r of Inl e \<Rightarrow> Inl e | Inr x \<Rightarrow> f x)"

definition nth_e :: "'a list \<Rightarrow> nat \<Rightarrow> error + 'a" where
  \<comment> \<open>\<^verbatim>\<open>xs[i]\<close> for an index that is never negative\<close>
  "nth_e xs i = (if i < length xs then Inr (xs ! i) else Inl IndexError)"

subsection \<open>Strings\<close>

definition CR :: char where "CR = CHR 0x0D"
definition LF :: char where "LF = CHR 0x0A"

definition is_ascii :: "char \<Rightarrow> bool" where
  "is_ascii ch = ((of_char ch :: nat) < 128)"

definition is_space :: "char \<Rightarrow> bool" where
  \<comment> \<open>the ASCII characters \<^verbatim>\<open>str.isspace\<close> accepts\<close>
  "is_space ch = ((of_char ch :: nat) \<in> {9, 10, 11, 12, 13, 28, 29, 30, 31, 32})"

definition py_strip :: "string \<Rightarrow> string \<Rightarrow> string" where
  \<comment> \<open>\<^verbatim>\<open>s.strip(chars)\<close>\<close>
  "py_strip chars s =
     rev (dropWhile (\<lambda>ch. ch \<in> set chars) (rev (dropWhile (\<lambda>ch. ch \<in> set chars) s)))"

definition py_rstrip :: "string \<Rightarrow> string" where
  \<comment> \<open>\<^verbatim>\<open>s.rstrip()\<close>\<close>
  "py_rstrip s = rev (dropWhile is_space (rev s))"

fun split_ws :: "string \<Rightarrow> string \<Rightarrow> string list" where
  \<comment> \<open>the word being read, then the rest of the string\<close>
  "split_ws cur [] = (if cur = [] then [] else [cur])"
| "split_ws cur (ch # s) =
     (if is_space ch then (if cur = [] then split_ws [] s else cur # split_ws [] s)
      else split_ws (cur @ [ch]) s)"

definition py_split :: "string \<Rightarrow> string list" where
  \<comment> \<open>\<^verbatim>\<open>s.split()\<close>\<close>
  "py_split s = split_ws [] s"

fun split_at :: "char \<Rightarrow> string \<Rightarrow> string \<Rightarrow> string list" where
  "split_at d cur [] = [cur]"
| "split_at d cur (ch # s) =
     (if ch = d then cur # split_at d [] s else split_at d (cur @ [ch]) s)"

definition split_on :: "char \<Rightarrow> string \<Rightarrow> string list" where
  \<comment> \<open>\<^verbatim>\<open>s.split(d)\<close> for a separator of one character\<close>
  "split_on d s = split_at d [] s"

definition py_join :: "string \<Rightarrow> string list \<Rightarrow> string" where
  \<comment> \<open>\<^verbatim>\<open>sep.join(xs)\<close>\<close>
  "py_join sep xs = (case xs of [] \<Rightarrow> [] | x # r \<Rightarrow> x @ concat (map (\<lambda>y. sep @ y) r))"

subsection \<open>Numbers and their text\<close>

definition py_round :: "rat \<Rightarrow> int" where
  \<comment> \<open>\<^verbatim>\<open>round(x)\<close>: to the nearest integer, a tie to the even one\<close>
  "py_round x =
     (let f = \<lfloor>x\<rfloor>; d = x - of_int f
      in if d < 1 / 2 then f else if 1 / 2 < d then f + 1 else if even f then f else f + 1)"

definition py_round_to :: "nat \<Rightarrow> rat \<Rightarrow> rat" where
  \<comment> \<open>\<^verbatim>\<open>round(x, n)\<close>\<close>
  "py_round_to n x = of_int (py_round (x * 10 ^ n)) / 10 ^ n"

definition py_int :: "rat \<Rightarrow> int" where
  \<comment> \<open>\<^verbatim>\<open>int(x)\<close> of a number: towards zero\<close>
  "py_int x = (if 0 \<le> x then \<lfloor>x\<rfloor> else \<lceil>x\<rceil>)"

definition digit_char :: "nat \<Rightarrow> char" where
  "digit_char n = char_of (48 + n)"

definition is_digit :: "char \<Rightarrow> bool" where
  "is_digit ch = (48 \<le> (of_char ch :: nat) \<and> (of_char ch :: nat) \<le> 57)"

definition digit_val :: "char \<Rightarrow> nat" where
  "digit_val ch = of_char ch - 48"

fun show_nat :: "nat \<Rightarrow> string" where
  "show_nat n = (if n < 10 then [digit_char n] else show_nat (n div 10) @ [digit_char (n mod 10)])"

declare show_nat.simps [simp del]

definition digits_val :: "string \<Rightarrow> nat" where
  "digits_val s = foldl (\<lambda>a ch. 10 * a + digit_val ch) 0 s"

definition fmt_d :: "int \<Rightarrow> string" where
  \<comment> \<open>\<^verbatim>\<open>'%d' % i\<close>\<close>
  "fmt_d i = (if i < 0 then ''-'' else '''') @ show_nat (nat \<bar>i\<bar>)"

definition fmt_6f :: "rat \<Rightarrow> string" where
  \<comment> \<open>\<^verbatim>\<open>'%0.6f' % x\<close>\<close>
  "fmt_6f x =
     (let n = nat (py_round (\<bar>x\<bar> * 10 ^ 6)); frac = show_nat (n mod 10 ^ 6)
      in (if x < 0 then ''-'' else '''') @ show_nat (n div 10 ^ 6) @ ''.''
         @ replicate (6 - length frac) (CHR ''0'') @ frac)"

definition unsigned :: "string \<Rightarrow> bool \<times> string" where
  \<comment> \<open>an optional sign in front of a literal: whether it is negative, and the rest\<close>
  "unsigned s =
     (case s of [] \<Rightarrow> (False, [])
      | ch # r \<Rightarrow> if ch = CHR ''-'' then (True, r) else if ch = CHR ''+'' then (False, r)
                  else (False, s))"

definition py_int_of_str :: "string \<Rightarrow> error + int" where
  \<comment> \<open>\<^verbatim>\<open>int(s)\<close> of a string: the decimal literals with an optional sign and blanks
      around them; the other literals Python reads (digits grouped by underscores,
      digits outside ASCII) are answered \<open>ValueError\<close>\<close>
  "py_int_of_str s =
     (let (neg, ds) = unsigned (py_strip [CHR 0x09, LF, CHR 0x0B, CHR 0x0C, CR, CHR 0x1C,
                                          CHR 0x1D, CHR 0x1E, CHR 0x1F, CHR '' ''] s)
      in if ds \<noteq> [] \<and> list_all is_digit ds
         then Inr ((if neg then - 1 else 1) * int (digits_val ds))
         else Inl ValueError)"

definition py_float :: "string \<Rightarrow> error + rat" where
  \<comment> \<open>\<^verbatim>\<open>float(s)\<close> of a string without blanks: the decimal literals \<^verbatim>\<open>[+-]d*[.d*]\<close>
      with a digit somewhere; the other literals Python reads (an exponent, inf, nan,
      digits grouped by underscores) are answered \<open>ValueError\<close>\<close>
  "py_float s =
     (let (neg, body) = unsigned s;
          ip = takeWhile (\<lambda>ch. ch \<noteq> CHR ''.'') body;
          fp = drop 1 (dropWhile (\<lambda>ch. ch \<noteq> CHR ''.'') body)
      in if list_all is_digit ip \<and> list_all is_digit fp \<and> (ip \<noteq> [] \<or> fp \<noteq> [])
         then Inr ((if neg then - 1 else 1)
                   * (of_nat (digits_val ip) + of_nat (digits_val fp) / 10 ^ length fp))
         else Inl ValueError)"

subsection \<open>The controller and its port\<close>

record exchange =
  line :: string       \<comment> \<open>the bytes \<^verbatim>\<open>port.readline()\<close> returns (empty at a timeout)\<close>
  leftover :: nat      \<comment> \<open>\<^verbatim>\<open>port.in_waiting\<close> after that line was read\<close>

datatype response = Text string | Values "rat list" | NoReply

record controller =
  \<comment> \<open>the port: what was written, what the device answers to the n-th write\<close>
  written :: "string list"
  replies :: "nat \<Rightarrow> exchange"
  reads :: nat
  is_open :: bool
  \<comment> \<open>the axes and their limits, fixed by \<^verbatim>\<open>__init__\<close>\<close>
  axes :: "string list"
  max_velocity_mmps :: "rat list"
  min_position_um :: "rat list"
  max_position_um :: "rat list"
  encoder_counts_per_um :: "int list"
  min_acceleration_ms :: "rat list"
  max_acceleration_ms :: "rat list"
  max_settle_time_ms :: "rat list"
  tol_settle_time_ms :: "rat list"
  min_precision_um :: "rat list"
  max_precision_um :: "rat list"
  \<comment> \<open>the attributes the methods assign\<close>
  velocity_mmps :: "rat list"
  acceleration_ms :: "rat list"
  settle_time_ms :: "rat list"
  precision_um :: "int list"
  position_um :: "rat list"
  moving :: bool
  target_move_um :: "rat list"
  ttl_in_mode :: "string option"
  ttl_out_mode :: "string option"
  pwm_intensity :: int
  state :: "string option"

type_synonym 'a action = "controller \<Rightarrow> (error + 'a) \<times> controller"

definition andthen :: "'a action \<Rightarrow> ('a \<Rightarrow> 'b action) \<Rightarrow> 'b action" where
  \<comment> \<open>one statement after another: an exception ends the method, the object keeps what
      was assigned before it\<close>
  "andthen m f c = (case m c of (Inl e, c') \<Rightarrow> (Inl e, c') | (Inr x, c') \<Rightarrow> f x c')"

definition raise :: "error \<Rightarrow> 'a action" where
  "raise e c = (Inl e, c)"

definition return :: "'a \<Rightarrow> 'a action" where
  "return x c = (Inr x, c)"

definition lift :: "error + 'a \<Rightarrow> 'a action" where
  "lift r c = (r, c)"

definition assert :: "bool \<Rightarrow> error \<Rightarrow> unit action" where
  "assert b e = (if b then return () else raise e)"

subsection \<open>\<^verbatim>\<open>_send\<close>\<close>

definition strip_chars :: string where
  "strip_chars = [CHR '':'', CHR ''A'', CHR '' '', CR, LF]"

fun parse_tokens :: "string list \<Rightarrow> error + (string list \<times> rat list)" where
  \<comment> \<open>the loop over \<^verbatim>\<open>response.split()\<close>\<close>
  "parse_tokens [] = Inr ([], [])"
| "parse_tokens (a # r) =
     (case split_on (CHR ''='') a of
        [axis, val] \<Rightarrow>
          bindE (py_float val) (\<lambda>v.
          bindE (parse_tokens r) (\<lambda>(as, vs). Inr (axis # as, v # vs)))
      | _ \<Rightarrow> Inl ValueError)"

definition decode :: "bool \<Rightarrow> bool \<Rightarrow> string list \<Rightarrow> string \<Rightarrow> error + response" where
  \<comment> \<open>what \<^verbatim>\<open>_send\<close> makes of the stripped line\<close>
  "decode respond parse_axes axs resp =
     (if respond then
        if resp = [] then Inl NoResponse
        else if parse_axes then
          bindE (parse_tokens (py_split resp)) (\<lambda>(as, vs).
            if as = axs then Inr (Values vs) else Inl ProtocolError)
        else Inr (Text resp)
      else Inr NoReply)"

definition send :: "string \<Rightarrow> bool \<Rightarrow> bool \<Rightarrow> response action" where
  "send cmd respond parse_axes c =
     (if \<not> list_all is_ascii cmd then (Inl UnicodeEncodeError, c)
      else if \<not> is_open c then (Inl PortNotOpenError, c)
      else
        let x = replies c (reads c);
            c' = c\<lparr>written := written c @ [cmd @ [CR]], reads := reads c + 1\<rparr>
        in if \<not> list_all is_ascii (line x) then (Inl UnicodeDecodeError, c')
           else case decode respond parse_axes (axes c) (py_strip strip_chars (line x)) of
                  Inl e \<Rightarrow> (Inl e, c')
                | Inr r \<Rightarrow> if leftover x = 0 then (Inr r, c') else (Inl FramingError, c'))"

subsection \<open>The TTL registers and the named states\<close>

definition code2mode_in :: "(string \<times> string) list" where
  "code2mode_in = [(''0'', ''disabled''), (''10'', ''toggle_ttl_out'')]"

definition mode2code_in :: "(string \<times> string) list" where
  "mode2code_in = [(''disabled'', ''0''), (''toggle_ttl_out'', ''10'')]"

definition code2mode_out :: "(string \<times> string) list" where
  "code2mode_out = [(''0'', ''low''), (''1'', ''high''), (''9'', ''pwm'')]"

definition mode2code_out :: "(string \<times> string) list" where
  "mode2code_out = [(''low'', ''0''), (''high'', ''1''), (''pwm'', ''9'')]"

definition ttl_code :: "(string \<times> string) list \<Rightarrow> response \<Rightarrow> string action" where
  \<comment> \<open>\<^verbatim>\<open>code2mode[response.rstrip().split('=')[1]]\<close>\<close>
  "ttl_code code2mode r =
     (case r of
        Text s \<Rightarrow>
          andthen (lift (nth_e (split_on (CHR ''='') (py_rstrip s)) 1)) (\<lambda>code.
            case map_of code2mode code of
              None \<Rightarrow> raise KeyError
            | Some m \<Rightarrow> return m)
      | _ \<Rightarrow> raise AttributeError)"

definition get_ttl_in_mode :: "string action" where
  "get_ttl_in_mode =
     andthen (send ''TTL X?'' True False) (\<lambda>r.
     andthen (ttl_code code2mode_in r) (\<lambda>m c.
       (Inr m, c\<lparr>ttl_in_mode := Some m\<rparr>)))"

definition set_ttl_in_mode :: "string \<Rightarrow> unit action" where
  "set_ttl_in_mode mode =
     (case map_of mode2code_in mode of
        None \<Rightarrow> raise ModeNotAllowed
      | Some code \<Rightarrow>
          andthen (send (''TTL X='' @ code) False False) (\<lambda>r.
          andthen (\<lambda>c. (Inr (), c\<lparr>ttl_in_mode := None\<rparr>)) (\<lambda>_.
          andthen get_ttl_in_mode (\<lambda>m.
            assert (m = mode) VerificationError))))"

definition get_ttl_out_mode :: "string action" where
  "get_ttl_out_mode =
     andthen (send ''TTL Y?'' True False) (\<lambda>r.
     andthen (ttl_code code2mode_out r) (\<lambda>m c.
       (Inr m, c\<lparr>ttl_out_mode := Some m\<rparr>)))"

definition set_ttl_out_mode :: "string \<Rightarrow> unit action" where
  "set_ttl_out_mode mode =
     (case map_of mode2code_out mode of
        None \<Rightarrow> raise ModeNotAllowed
      | Some code \<Rightarrow>
          andthen (send (''TTL Y='' @ code) False False) (\<lambda>r.
          andthen (\<lambda>c. (Inr (), c\<lparr>ttl_out_mode := None\<rparr>)) (\<lambda>_.
          andthen get_ttl_out_mode (\<lambda>m.
            assert (m = mode) VerificationError))))"

definition set_pwm_state :: "string \<Rightarrow> unit action" where
  "set_pwm_state st =
     andthen (assert (st \<in> set [''off'', ''on'', ''pwm'', ''external'']) ModeNotAllowed) (\<lambda>_.
     andthen (if st = ''off''
              then andthen (set_ttl_in_mode ''disabled'') (\<lambda>_. set_ttl_out_mode ''low'')
              else return ()) (\<lambda>_.
     andthen (if st = ''on''
              then andthen (set_ttl_in_mode ''disabled'') (\<lambda>_. set_ttl_out_mode ''high'')
              else return ()) (\<lambda>_.
     andthen (if st = ''pwm''
              then andthen (set_ttl_in_mode ''disabled'') (\<lambda>_. set_ttl_out_mode ''pwm'')
              else return ()) (\<lambda>_.
     andthen (if st = ''external''
              then andthen (set_ttl_in_mode ''toggle_ttl_out'') (\<lambda>_. set_ttl_out_mode ''low'')
              else return ()) (\<lambda>_ c.
       (Inr (), c\<lparr>state := Some st\<rparr>))))))"

definition close :: "unit action" where
  "close =
     andthen (\<lambda>c. if state c \<noteq> Some ''off'' then set_pwm_state ''off'' c else return () c) (\<lambda>_ c.
       (Inr (), c\<lparr>is_open := False\<rparr>))"

subsection \<open>The PWM intensity\<close>

definition get_pwm_intensity :: "int action" where
  "get_pwm_intensity =
     andthen (send ''LED X?'' True False) (\<lambda>r.
       case r of
         Text s \<Rightarrow>
           andthen (lift (nth_e (split_on (CHR ''='') s) 1)) (\<lambda>v.
           andthen (lift (py_int_of_str v)) (\<lambda>i c.
             (Inr i, c\<lparr>pwm_intensity := i\<rparr>)))
       | _ \<Rightarrow> raise AttributeError)"

definition set_pwm_intensity :: "rat \<Rightarrow> unit action" where
  "set_pwm_intensity intensity =
     (let i = py_int intensity
      in andthen (assert (1 \<le> i \<and> i \<le> 99) RangeError) (\<lambda>_.
         andthen (send (''LED X='' @ fmt_d i) False False) (\<lambda>_.
         andthen get_pwm_intensity (\<lambda>g.
           assert (g = i) VerificationError))))"

subsection \<open>The parameter store\<close>

definition query :: "string \<Rightarrow> rat list action" where
  \<comment> \<open>\<^verbatim>\<open>self._send(kw + '? '.join(self.axes) + '?', parse_axes=True)\<close>; with
      \<^verbatim>\<open>parse_axes\<close> the answer of \<open>send\<close> is a tuple of values\<close>
  "query kw c =
     andthen (send (kw @ py_join ''? '' (axes c) @ ''?'') True True) (\<lambda>r.
       case r of Values vs \<Rightarrow> return vs | _ \<Rightarrow> raise AttributeError) c"

definition get_velocity :: "rat list action" where
  "get_velocity =
     andthen (query ''S '') (\<lambda>vs c. (Inr vs, c\<lparr>velocity_mmps := vs\<rparr>))"

fun velocity_loop :: "controller \<Rightarrow> nat \<Rightarrow> rat option list \<Rightarrow> error + (rat list \<times> string list)" where
  \<comment> \<open>\<^verbatim>\<open>for i, v in enumerate(velocity_mmps)\<close>: the values to set and the words of the command\<close>
  "velocity_loop c i [] = Inr ([], [])"
| "velocity_loop c i (v # r) =
     bindE (case v of None \<Rightarrow> nth_e (velocity_mmps c) i | Some x \<Rightarrow> Inr x) (\<lambda>x.
     if \<not> 0 \<le> x then Inl RangeError else
     bindE (nth_e (max_velocity_mmps c) i) (\<lambda>hi.
     if \<not> x \<le> hi then Inl RangeError else
     let x' = py_round_to 6 x in
     bindE (nth_e (axes c) i) (\<lambda>a.
     bindE (velocity_loop c (i + 1) r) (\<lambda>(xs, words).
       Inr (x' # xs, (''V'' @ a @ ''='' @ fmt_6f x' @ '' '') # words)))))"

definition set_velocity :: "rat option list \<Rightarrow> unit action" where
  "set_velocity vel c =
     andthen (assert (length vel = length (axes c)) LengthError) (\<lambda>_.
     andthen (assert (list_all (\<lambda>v. v \<noteq> None) vel) TypeCheckError) (\<lambda>_.
     andthen (lift (velocity_loop c 0 vel)) (\<lambda>(xs, words).
     andthen (send (concat (''S '' # words)) False False) (\<lambda>_.
     andthen get_velocity (\<lambda>g.
       assert (g = xs) VerificationError))))) c"

definition get_acceleration :: "rat list action" where
  "get_acceleration =
     andthen (query ''AC '') (\<lambda>vs c. (Inr vs, c\<lparr>acceleration_ms := vs\<rparr>))"

fun acceleration_loop :: "controller \<Rightarrow> nat \<Rightarrow> rat option list \<Rightarrow> error + (int list \<times> string list)" where
  "acceleration_loop c i [] = Inr ([], [])"
| "acceleration_loop c i (a # r) =
     bindE (case a of None \<Rightarrow> nth_e (acceleration_ms c) i | Some x \<Rightarrow> Inr x) (\<lambda>x.
     let x' = py_round x in
     bindE (nth_e (min_acceleration_ms c) i) (\<lambda>lo.
     if \<not> lo \<le> of_int x' then Inl RangeError else
     bindE (nth_e (max_acceleration_ms c) i) (\<lambda>hi.
     if \<not> of_int x' \<le> hi then Inl RangeError else
     bindE (nth_e (axes c) i) (\<lambda>ax.
     bindE (acceleration_loop c (i + 1) r) (\<lambda>(xs, words).
       Inr (x' # xs, (''AC'' @ ax @ ''='' @ fmt_6f (of_int x') @ '' '') # words))))))"

definition set_acceleration :: "rat option list \<Rightarrow> unit action" where
  "set_acceleration acc c =
     andthen (assert (length acc = length (axes c)) LengthError) (\<lambda>_.
     andthen (assert (list_all (\<lambda>v. v \<noteq> None) acc) TypeCheckError) (\<lambda>_.
     andthen (lift (acceleration_loop c 0 acc)) (\<lambda>(xs, words).
     andthen (send (concat (''AC '' # words)) False False) (\<lambda>_.
     andthen get_acceleration (\<lambda>g.
       assert (g = map of_int xs) VerificationError))))) c"

definition get_settle_time :: "rat list action" where
  "get_settle_time =
     andthen (query ''WT '') (\<lambda>vs c. (Inr vs, c\<lparr>settle_time_ms := vs\<rparr>))"

fun settle_time_loop :: "controller \<Rightarrow> nat \<Rightarrow> rat option list \<Rightarrow> error + (int list \<times> string list)" where
  "settle_time_loop c i [] = Inr ([], [])"
| "settle_time_loop c i (t # r) =
     bindE (case t of None \<Rightarrow> nth_e (settle_time_ms c) i | Some x \<Rightarrow> Inr x) (\<lambda>x.
     let x' = py_round x in
     if \<not> 0 \<le> x' then Inl RangeError else
     bindE (nth_e (max_settle_time_ms c) i) (\<lambda>hi.
     if \<not> of_int x' \<le> hi then Inl RangeError else
     bindE (nth_e (axes c) i) (\<lambda>ax.
     bindE (settle_time_loop c (i + 1) r) (\<lambda>(xs, words).
       Inr (x' # xs, (''WT'' @ ax @ ''='' @ fmt_6f (of_int x') @ '' '') # words)))))"

fun settle_time_check :: "rat list \<Rightarrow> nat \<Rightarrow> (int \<times> rat) list \<Rightarrow> error + unit" where
  \<comment> \<open>\<^verbatim>\<open>for i, (ti, tf) in enumerate(zip(settle_time_ms, self.settle_time_ms))\<close>\<close>
  "settle_time_check tol i [] = Inr ()"
| "settle_time_check tol i ((ti, tf) # r) =
     bindE (nth_e tol i) (\<lambda>d.
     if \<not> of_int ti - d \<le> tf then Inl VerificationError
     else if \<not> tf \<le> of_int ti + d then Inl VerificationError
     else settle_time_check tol (i + 1) r)"

definition set_settle_time :: "rat option list \<Rightarrow> unit action" where
  "set_settle_time stl c =
     andthen (assert (length stl = length (axes c)) LengthError) (\<lambda>_.
     andthen (assert (list_all (\<lambda>v. v \<noteq> None) stl) TypeCheckError) (\<lambda>_.
     andthen (lift (settle_time_loop c 0 stl)) (\<lambda>(xs, words).
     andthen (send (concat (''WT '' # words)) False False) (\<lambda>_.
     andthen get_settle_time (\<lambda>g c'.
       lift (settle_time_check (tol_settle_time_ms c') 0 (zip xs (settle_time_ms c'))) c'))))) c"

definition get_precision :: "int list action" where
  "get_precision =
     andthen (query ''PC '') (\<lambda>precision_mm c.
       let ps = map (\<lambda>p. py_round (10 ^ 6 * p)) precision_mm
       in (Inr ps, c\<lparr>precision_um := ps\<rparr>))"

fun precision_loop :: "controller \<Rightarrow> nat \<Rightarrow> rat option list \<Rightarrow> error + (int list \<times> string list)" where
  "precision_loop c i [] = Inr ([], [])"
| "precision_loop c i (p # r) =
     bindE (case p of None \<Rightarrow> bindE (nth_e (precision_um c) i) (\<lambda>k. Inr (of_int k))
                    | Some x \<Rightarrow> Inr x) (\<lambda>x.
     let x' = py_round x in
     bindE (nth_e (min_precision_um c) i) (\<lambda>lo.
     if \<not> lo \<le> of_int x' then Inl RangeError else
     bindE (nth_e (max_precision_um c) i) (\<lambda>hi.
     if \<not> of_int x' \<le> hi then Inl RangeError else
     bindE (nth_e (axes c) i) (\<lambda>ax.
     bindE (precision_loop c (i + 1) r) (\<lambda>(xs, words).
       Inr (x' # xs, (''PC'' @ ax @ ''='' @ fmt_6f (of_int x' / 10 ^ 6) @ '' '') # words))))))"

definition set_precision :: "rat option list \<Rightarrow> unit action" where
  "set_precision pre c =
     andthen (assert (length pre = length (axes c)) LengthError) (\<lambda>_.
     andthen (assert (list_all (\<lambda>v. v \<noteq> None) pre) TypeCheckError) (\<lambda>_.
     andthen (lift (precision_loop c 0 pre)) (\<lambda>(xs, words).
     andthen (send (concat (''PC '' # words)) False False) (\<lambda>_.
     andthen get_precision (\<lambda>g.
       assert (g = xs) VerificationError))))) c"

subsection \<open>Motion\<close>

fun counts2position :: "(string \<times> int) list \<Rightarrow> error + rat list" where
  \<comment> \<open>over \<^verbatim>\<open>zip(counts, self.encoder_counts_per_um)\<close>\<close>
  "counts2position [] = Inr []"
| "counts2position ((count, factor) # r) =
     bindE (py_float count) (\<lambda>x.
     if factor = 0 then Inl ZeroDivisionError else
     bindE (counts2position r) (\<lambda>ps. Inr (x / of_int factor # ps)))"

definition position2counts :: "controller \<Rightarrow> rat list \<Rightarrow> int list" where
  "position2counts c pos =
     map (\<lambda>(position, factor). py_round (position * of_int factor))
         (zip pos (encoder_counts_per_um c))"

definition get_position :: "rat list action" where
  "get_position c =
     andthen (send (''W '' @ py_join '' '' (axes c)) True False) (\<lambda>r.
       case r of
         Text s \<Rightarrow>
           andthen (\<lambda>c. lift (counts2position
                      (zip (py_split (py_strip strip_chars s)) (encoder_counts_per_um c))) c) (\<lambda>ps c.
             (Inr ps, c\<lparr>position_um := ps\<rparr>))
       | _ \<Rightarrow> raise AttributeError) c"

partial_function (option) wait_not_busy :: "controller \<Rightarrow> ((error + unit) \<times> controller) option" where
  \<comment> \<open>\<^verbatim>\<open>while True: status = self._send('/'); if status == 'N': break\<close>; \<open>None\<close> when the
      loop never ends\<close>
  "wait_not_busy c =
     (case send ''/'' True False c of
        (Inl e, c') \<Rightarrow> Some (Inl e, c')
      | (Inr status, c') \<Rightarrow> if status = Text ''N'' then Some (Inr (), c') else wait_not_busy c')"

declare wait_not_busy.simps [code]

fun tolerance_check :: "controller \<Rightarrow> nat \<Rightarrow> rat list \<Rightarrow> error + unit" where
  \<comment> \<open>\<^verbatim>\<open>for i, p in enumerate(self.position_um)\<close>\<close>
  "tolerance_check c i [] = Inr ()"
| "tolerance_check c i (p # r) =
     bindE (nth_e (target_move_um c) i) (\<lambda>t.
     bindE (nth_e (precision_um c) i) (\<lambda>d.
     if \<not> t - of_int d \<le> p then Inl MotionToleranceError
     else if \<not> p \<le> t + of_int d then Inl MotionToleranceError
     else tolerance_check c (i + 1) r))"

definition finish_moving :: "controller \<Rightarrow> ((error + unit) \<times> controller) option" where
  "finish_moving c =
     (if \<not> moving c then Some (Inr (), c)
      else case wait_not_busy c of
             None \<Rightarrow> None
           | Some (Inl e, c') \<Rightarrow> Some (Inl e, c')
           | Some (Inr _, c') \<Rightarrow>
               Some (andthen get_position (\<lambda>_.
                     andthen (\<lambda>c. lift (tolerance_check c 0 (position_um c)) c) (\<lambda>_ c.
                       (Inr (), c\<lparr>moving := False\<rparr>))) c'))"

fun resolve_move :: "controller \<Rightarrow> bool \<Rightarrow> nat \<Rightarrow> rat option list \<Rightarrow> error + rat list" where
  \<comment> \<open>\<^verbatim>\<open>for i, m in enumerate(move_um)\<close>: the absolute targets, checked against the range\<close>
  "resolve_move c relative i [] = Inr []"
| "resolve_move c relative i (m # r) =
     bindE (case m of
              None \<Rightarrow> nth_e (position_um c) i
            | Some d \<Rightarrow> if relative then bindE (nth_e (position_um c) i) (\<lambda>p. Inr (p + d))
                        else Inr d) (\<lambda>t.
     bindE (nth_e (min_position_um c) i) (\<lambda>lo.
     if \<not> lo \<le> t then Inl RangeError else
     bindE (nth_e (max_position_um c) i) (\<lambda>hi.
     if \<not> t \<le> hi then Inl RangeError else
     bindE (resolve_move c relative (i + 1) r) (\<lambda>ts. Inr (t # ts)))))"

fun move_words :: "int list \<Rightarrow> nat \<Rightarrow> string list \<Rightarrow> error + string list" where
  \<comment> \<open>\<^verbatim>\<open>for i in range(len(self.axes))\<close>: one word of the command for each axis\<close>
  "move_words counts i [] = Inr []"
| "move_words counts i (ax # r) =
     bindE (nth_e counts i) (\<lambda>k.
     bindE (move_words counts (i + 1) r) (\<lambda>words.
       Inr ((ax @ ''='' @ fmt_6f (of_int k) @ '' '') # words)))"

definition start_move :: "rat option list \<Rightarrow> bool \<Rightarrow> unit action" where
  \<comment> \<open>\<^verbatim>\<open>move_um\<close> between its two calls of \<^verbatim>\<open>_finish_moving\<close>\<close>
  "start_move mv relative c =
     andthen (assert (length mv = length (axes c)) LengthError) (\<lambda>_.
     andthen (lift (resolve_move c relative 0 mv)) (\<lambda>ts.
       let tgt = map (py_round_to 3) ts in
     andthen (lift (move_words (position2counts c tgt) 0 (axes c))) (\<lambda>words.
     andthen (send (concat (''M '' # words)) False False) (\<lambda>_ c.
       (Inr (), c\<lparr>moving := True, target_move_um := tgt\<rparr>))))) c"

definition move_um :: "rat option list \<Rightarrow> bool \<Rightarrow> bool \<Rightarrow> controller \<Rightarrow> ((error + unit) \<times> controller) option" where
  "move_um mv relative block c =
     (case finish_moving c of
        None \<Rightarrow> None
      | Some (Inl e, c') \<Rightarrow> Some (Inl e, c')
      | Some (Inr _, c') \<Rightarrow>
          (case start_move mv relative c' of
             (Inl e, c'') \<Rightarrow> Some (Inl e, c'')
           | (Inr _, c'') \<Rightarrow> if block then finish_moving c'' else Some (Inr (), c'')))"

subsection \<open>Vocabulary of the statements\<close>

text \<open>
  The device is not part of the repository. The statements below speak of it through the
  answers it gives: an answer that the port reads cleanly, and the answer of a device
  that reports the values it was sent, in the format they were sent in.
\<close>

definition valid_axes :: "string list \<Rightarrow> bool" where
  \<comment> \<open>\<^verbatim>\<open>assert axes == ('X','Y') or axes == ('Z',) or axes == ('X','Y','Z')\<close> of
      \<^verbatim>\<open>__init__\<close>\<close>
  "valid_axes axs = (axs = [''X'', ''Y''] \<or> axs = [''Z''] \<or> axs = [''X'', ''Y'', ''Z''])"

definition six_decimals :: "rat \<Rightarrow> bool" where
  \<comment> \<open>a number with at most six decimals\<close>
  "six_decimals v = (py_round_to 6 v = v)"

definition clean :: "exchange \<Rightarrow> bool" where
  \<comment> \<open>a line of ASCII bytes with nothing left in the buffer behind it\<close>
  "clean x = (list_all is_ascii (line x) \<and> leftover x = 0)"

definition axis_word :: "string \<Rightarrow> bool" where
  \<comment> \<open>a name that survives the stripping and the splitting of an answer\<close>
  "axis_word a = (a \<noteq> [] \<and> hd a \<notin> set strip_chars
                  \<and> (\<forall>ch\<in>set a. \<not> is_space ch \<and> ch \<noteq> CHR ''='' \<and> is_ascii ch))"

definition sent :: "string \<Rightarrow> controller \<Rightarrow> controller" where
  \<comment> \<open>the controller after one line was written and one line was read\<close>
  "sent cmd c = c\<lparr>written := written c @ [cmd @ [CR]], reads := reads c + 1\<rparr>"

definition echo_words :: "string list \<Rightarrow> rat list \<Rightarrow> string list" where
  "echo_words axs vs = map (\<lambda>(a, v). a @ ''='' @ fmt_6f v) (zip axs vs)"

definition echo_reply :: "string list \<Rightarrow> rat list \<Rightarrow> exchange" where
  \<comment> \<open>the answer \<^verbatim>\<open>:A X=1.000000 Y=2.000000 \r\n\<close> to a query of the axes\<close>
  "echo_reply axs vs =
     \<lparr>line = '':A '' @ py_join '' '' (echo_words axs vs) @ '' '' @ [CR, LF], leftover = 0\<rparr>"

definition text_reply :: "string \<Rightarrow> exchange" where
  \<comment> \<open>the answer \<^verbatim>\<open>:A text \r\n\<close>\<close>
  "text_reply s = \<lparr>line = '':A '' @ s @ '' '' @ [CR, LF], leftover = 0\<rparr>"

definition script :: "exchange list \<Rightarrow> nat \<Rightarrow> exchange" where
  \<comment> \<open>a device that gives these answers and then none: \<^verbatim>\<open>readline\<close> times out\<close>
  "script xs n = (if n < length xs then xs ! n else \<lparr>line = [], leftover = 0\<rparr>)"

definition xy_stage :: "(nat \<Rightarrow> exchange) \<Rightarrow> controller" where
  \<comment> \<open>the controller of the source's \<^verbatim>\<open>__main__\<close> block once \<^verbatim>\<open>__init__\<close> has returned:
      \<^verbatim>\<open>axes=('X','Y'), lead_screws=('S','S'), axes_min_mm=(-50,-25), axes_max_mm=(50,25)\<close>,
      the stage at the origin\<close>
  "xy_stage dev =
     \<lparr>written = [], replies = dev, reads = 0, is_open = True,
      axes = [''X'', ''Y''],
      max_velocity_mmps = [7, 7],
      min_position_um = [- 50000, - 25000],
      max_position_um = [50000, 25000],
      encoder_counts_per_um = [10, 10],
      min_acceleration_ms = [25, 25],
      max_acceleration_ms = [1000, 1000],
      max_settle_time_ms = [1000, 1000],
      tol_settle_time_ms = [1, 1],
      min_precision_um = [1, 1],
      max_precision_um = [1000000, 1000000],
      velocity_mmps = [469 / 100, 469 / 100],
      acceleration_ms = [25, 25],
      settle_time_ms = [0, 0],
      precision_um = [1, 1],
      position_um = [0, 0],
      moving = False,
      target_move_um = [],
      ttl_in_mode = Some ''disabled'',
      ttl_out_mode = Some ''low'',
      pwm_intensity = 1,
      state = None\<rparr>"

definition answer_words :: "controller \<Rightarrow> string list" where
  \<comment> \<open>the words of the answer the next \<open>send\<close> reads\<close>
  "answer_words c = py_split (py_strip strip_chars (line (replies c (reads c))))"

definition yx_stage :: controller where
  \<comment> \<open>the axes asked for in the order Y, X; the device answers X, then Y\<close>
  "yx_stage = (xy_stage (script [text_reply ''X=1.000000 Y=2.000000'']))\<lparr>axes := [''Y'', ''X'']\<rparr>"

definition state_table :: "(string \<times> (string \<times> string)) list" where
  \<comment> \<open>the table of the specification, section 4.5: named state, input mode, output mode\<close>
  "state_table =
     [(''off'', (''disabled'', ''low'')),
      (''on'', (''disabled'', ''high'')),
      (''pwm'', (''disabled'', ''pwm'')),
      (''external'', (''toggle_ttl_out'', ''low''))]"

definition after_ttl_in :: "string \<Rightarrow> string \<Rightarrow> controller \<Rightarrow> controller" where
  \<comment> \<open>the controller when \<open>set_ttl_in_mode\<close> has returned\<close>
  "after_ttl_in code mode c =
     (sent ''TTL X?'' ((sent (''TTL X='' @ code) c)\<lparr>ttl_in_mode := None\<rparr>))\<lparr>ttl_in_mode := Some mode\<rparr>"

definition after_ttl_out :: "string \<Rightarrow> string \<Rightarrow> controller \<Rightarrow> controller" where
  \<comment> \<open>the controller when \<open>set_ttl_out_mode\<close> has returned\<close>
  "after_ttl_out code mode c =
     (sent ''TTL Y?'' ((sent (''TTL Y='' @ code) c)\<lparr>ttl_out_mode := None\<rparr>))\<lparr>ttl_out_mode := Some mode\<rparr>"

definition ttl_device :: "string \<Rightarrow> string \<Rightarrow> nat \<Rightarrow> exchange" where
  \<comment> \<open>a device that takes the two register codes and reports them, again and again\<close>
  "ttl_device c_in c_out =
     script [text_reply [], text_reply (''X='' @ c_in), text_reply [], text_reply (''Y='' @ c_out),
             text_reply (''X='' @ c_in), text_reply (''Y='' @ c_out)]"

definition pwm_reply :: "int \<Rightarrow> exchange" where
  \<comment> \<open>the answer to \<^verbatim>\<open>LED X?\<close>, which the source notes as \<^verbatim>\<open>X=val :A\<close>\<close>
  "pwm_reply v = \<lparr>line = ''X='' @ fmt_d v @ '' :A'' @ [CR, LF], leftover = 0\<rparr>"

definition target :: "controller \<Rightarrow> bool \<Rightarrow> nat \<Rightarrow> rat option \<Rightarrow> rat" where
  \<comment> \<open>the absolute target of axis \<open>i\<close> for the entry \<open>m\<close> of a move\<close>
  "target c relative i m =
     (case m of None \<Rightarrow> position_um c ! i
      | Some d \<Rightarrow> if relative then position_um c ! i + d else d)"

definition in_range :: "controller \<Rightarrow> nat \<Rightarrow> rat \<Rightarrow> bool" where
  "in_range c i t = (min_position_um c ! i \<le> t \<and> t \<le> max_position_um c ! i)"

definition sized :: "controller \<Rightarrow> bool" where
  \<comment> \<open>every per-axis tuple has one entry for each axis, as \<^verbatim>\<open>__init__\<close> builds them\<close>
  "sized c =
     (let n = length (axes c)
      in length (max_velocity_mmps c) = n \<and> length (min_position_um c) = n
       \<and> length (max_position_um c) = n \<and> length (encoder_counts_per_um c) = n
       \<and> length (min_acceleration_ms c) = n \<and> length (max_acceleration_ms c) = n
       \<and> length (max_settle_time_ms c) = n \<and> length (tol_settle_time_ms c) = n
       \<and> length (min_precision_um c) = n \<and> length (max_precision_um c) = n
       \<and> length (position_um c) = n)"

definition motion_frame :: "controller \<Rightarrow> controller \<Rightarrow> bool" where
  \<comment> \<open>the second controller is the first but for the port, the position and the moving flag\<close>
  "motion_frame c c' =
     (c' = c\<lparr>written := written c', reads := reads c', position_um := position_um c',
             moving := moving c'\<rparr>)"

definition moved_stage :: controller where
  \<comment> \<open>the stage of \<^verbatim>\<open>__main__\<close> at X = 100, Y = 250 (um), on a device that acknowledges one
      command\<close>
  "moved_stage = (xy_stage (script [text_reply []]))\<lparr>position_um := [100, 250]\<rparr>"

definition velocity_ok :: "controller \<Rightarrow> nat \<Rightarrow> rat \<Rightarrow> bool" where
  \<comment> \<open>\<^verbatim>\<open>assert 0 <= velocity_mmps[i] <= self.max_velocity_mmps[i]\<close>, before the rounding\<close>
  "velocity_ok c i x = (0 \<le> x \<and> x \<le> max_velocity_mmps c ! i)"

definition acceleration_ok :: "controller \<Rightarrow> nat \<Rightarrow> rat \<Rightarrow> bool" where
  \<comment> \<open>the two assertions of \<^verbatim>\<open>_set_acceleration\<close>, on the rounded value\<close>
  "acceleration_ok c i x =
     (min_acceleration_ms c ! i \<le> of_int (py_round x)
      \<and> of_int (py_round x) \<le> max_acceleration_ms c ! i)"

definition settle_time_ok :: "controller \<Rightarrow> nat \<Rightarrow> rat \<Rightarrow> bool" where
  \<comment> \<open>\<^verbatim>\<open>assert 0 <= settle_time_ms[i] <= self.max_settle_time_ms[i]\<close>, on the rounded value\<close>
  "settle_time_ok c i x =
     (0 \<le> py_round x \<and> of_int (py_round x) \<le> max_settle_time_ms c ! i)"

definition precision_ok :: "controller \<Rightarrow> nat \<Rightarrow> rat \<Rightarrow> bool" where
  \<comment> \<open>the two assertions of \<^verbatim>\<open>_set_precision\<close>, on the rounded value\<close>
  "precision_ok c i x =
     (min_precision_um c ! i \<le> of_int (py_round x)
      \<and> of_int (py_round x) \<le> max_precision_um c ! i)"

definition set_words :: "string \<Rightarrow> string list \<Rightarrow> rat list \<Rightarrow> string list" where
  \<comment> \<open>the words \<^verbatim>\<open>'V%s=%0.6f ' % (axis, value)\<close> of a set command\<close>
  "set_words kw axs vs = map (\<lambda>(a, v). kw @ a @ ''='' @ fmt_6f v @ '' '') (zip axs vs)"

definition after_set :: "string \<Rightarrow> string \<Rightarrow> rat list \<Rightarrow> controller \<Rightarrow> controller" where
  \<comment> \<open>the port when a set command and the query after it have been answered\<close>
  "after_set kw w vs c =
     sent (kw @ py_join ''? '' (axes c) @ ''?'') (sent (concat (kw # set_words w (axes c) vs)) c)"

definition built :: "controller \<Rightarrow> bool" where
  \<comment> \<open>the limits \<^verbatim>\<open>__init__\<close> gives every axis\<close>
  "built c =
     (let n = length (axes c)
      in min_acceleration_ms c = replicate n 25 \<and> max_acceleration_ms c = replicate n 1000
       \<and> max_settle_time_ms c = replicate n 1000 \<and> tol_settle_time_ms c = replicate n 1
       \<and> min_precision_um c = replicate n 1 \<and> max_precision_um c = replicate n 1000000)"

definition in_bounds :: "rat list \<Rightarrow> rat list \<Rightarrow> rat list \<Rightarrow> bool" where
  \<comment> \<open>every entry lies within the bounds of its axis\<close>
  "in_bounds lo xs hi = (\<forall>i<length xs. lo ! i \<le> xs ! i \<and> xs ! i \<le> hi ! i)"

definition reports :: "controller \<Rightarrow> rat list \<Rightarrow> bool" where
  \<comment> \<open>the device answers the query that follows the set command, and the one after it,
      with these values\<close>
  "reports c vs =
     (replies c (reads c + 1) = echo_reply (axes c) vs
      \<and> replies c (reads c + 2) = echo_reply (axes c) vs)"

definition echo_stage :: "rat list \<Rightarrow> controller" where
  \<comment> \<open>the stage of \<^verbatim>\<open>__main__\<close> on a device that acknowledges one command and then answers
      two queries with these values\<close>
  "echo_stage vs =
     xy_stage (script [text_reply [], echo_reply [''X'', ''Y''] vs, echo_reply [''X'', ''Y''] vs])"

definition finishing_lines :: "controller \<Rightarrow> string set" where
  \<comment> \<open>the lines \<^verbatim>\<open>_finish_moving\<close> writes: the status poll and the position query\<close>
  "finishing_lines c = {''/'' @ [CR], (''W '' @ py_join '' '' (axes c)) @ [CR]}"

definition busy_stage :: controller where
  \<comment> \<open>the stage of \<^verbatim>\<open>__main__\<close> with a move to the origin under way, on a device that reports
      the move done and the stage at the origin\<close>
  "busy_stage =
     (xy_stage (script [text_reply ''N'', text_reply ''0 0'']))\<lparr>moving := True, target_move_um := [0, 0]\<rparr>"

definition half_set_stage :: controller where
  \<comment> \<open>the stage of \<^verbatim>\<open>__main__\<close> with the state \<^verbatim>\<open>off\<close> recorded, on a device that takes the
      input register of the state \<^verbatim>\<open>external\<close> and then answers nothing more\<close>
  "half_set_stage =
     (xy_stage (script [text_reply [], text_reply ''X=10'']))\<lparr>state := Some ''off''\<rparr>"

section \<open>Numbers, strings and the wire\<close>

subsection \<open>Decimal text of numbers\<close>

lemma is_digit_digit_char: "n < 10 \<Longrightarrow> is_digit (digit_char n)"
  by (simp add: is_digit_def digit_char_def)

lemma digit_val_digit_char: "n < 10 \<Longrightarrow> digit_val (digit_char n) = n"
  by (simp add: digit_val_def digit_char_def)

lemma show_nat_digits: "list_all is_digit (show_nat n)"
proof (induction n rule: show_nat.induct)
  case (1 n)
  show ?case
  proof (cases "n < 10")
    case True
    then show ?thesis by (subst show_nat.simps) (simp add: is_digit_digit_char)
  next
    case False
    with 1 show ?thesis by (subst show_nat.simps) (simp add: is_digit_digit_char)
  qed
qed

lemma show_nat_nonempty: "show_nat n \<noteq> []"
  by (subst show_nat.simps) simp

lemma digits_val_snoc: "digits_val (s @ [ch]) = 10 * digits_val s + digit_val ch"
  by (simp add: digits_val_def)

lemma digits_val_show_nat: "digits_val (show_nat n) = n"
proof (induction n rule: show_nat.induct)
  case (1 n)
  show ?case
  proof (cases "n < 10")
    case True
    then show ?thesis
      by (subst show_nat.simps) (simp add: digits_val_def digit_val_digit_char)
  next
    case False
    with 1 show ?thesis
      by (subst show_nat.simps) (simp add: digits_val_snoc digit_val_digit_char)
  qed
qed

lemma length_show_nat: "n < 10 ^ k \<Longrightarrow> 0 < k \<Longrightarrow> length (show_nat n) \<le> k"
proof (induction n arbitrary: k rule: show_nat.induct)
  case (1 n)
  show ?case
  proof (cases "n < 10")
    case True
    with 1(3) show ?thesis by (subst show_nat.simps) simp
  next
    case False
    then obtain k' where k: "k = Suc k'" using 1(3) by (cases k) auto
    with False 1(2) have k'pos: "0 < k'" by (cases k') auto
    from 1(2) k have "n div 10 < 10 ^ k'" by (simp add: less_mult_imp_div_less mult.commute)
    with 1(1)[OF False _ k'pos] have "length (show_nat (n div 10)) \<le> k'" by simp
    with False k show ?thesis by (subst show_nat.simps) simp
  qed
qed

lemma digits_val_zeros: "digits_val (replicate k (CHR ''0'') @ s) = digits_val s"
proof -
  have "foldl (\<lambda>a ch. 10 * a + digit_val ch) 0 (replicate k (CHR ''0'')) = 0"
    by (induction k) (simp_all add: digit_val_def)
  then show ?thesis by (simp add: digits_val_def)
qed

lemma py_round_of_int: "py_round (of_int k) = k"
  by (simp add: py_round_def)

lemma fmt_6f_micro:
  "fmt_6f (of_int k / 10 ^ 6) =
     (if k < 0 then ''-'' else []) @ show_nat (nat \<bar>k\<bar> div 10 ^ 6) @ ''.''
     @ replicate (6 - length (show_nat (nat \<bar>k\<bar> mod 10 ^ 6))) (CHR ''0'')
     @ show_nat (nat \<bar>k\<bar> mod 10 ^ 6)"
proof -
  have "\<bar>of_int k / 10 ^ 6 :: rat\<bar> * 10 ^ 6 = of_int \<bar>k\<bar>" by simp
  then have n: "py_round (\<bar>of_int k / 10 ^ 6 :: rat\<bar> * 10 ^ 6) = \<bar>k\<bar>"
    by (simp only: py_round_of_int)
  have neg: "(of_int k / 10 ^ 6 < (0::rat)) = (k < 0)"
    by (simp add: divide_less_0_iff)
  show ?thesis unfolding fmt_6f_def Let_def n neg by simp
qed

lemma is_digit_not_dot: "is_digit ch \<Longrightarrow> ch \<noteq> CHR ''.''"
  by (auto simp: is_digit_def)

lemma takeWhile_digits_dot:
  "list_all is_digit ds \<Longrightarrow> takeWhile (\<lambda>ch. ch \<noteq> CHR ''.'') (ds @ CHR ''.'' # r) = ds"
  by (induction ds) (auto simp: is_digit_not_dot)

lemma dropWhile_digits_dot:
  "list_all is_digit ds \<Longrightarrow> dropWhile (\<lambda>ch. ch \<noteq> CHR ''.'') (ds @ CHR ''.'' # r) = CHR ''.'' # r"
  by (induction ds) (auto simp: is_digit_not_dot)

lemma unsigned_minus: "unsigned (CHR ''-'' # r) = (True, r)"
  by (simp add: unsigned_def)

lemma unsigned_digits: "list_all is_digit ds \<Longrightarrow> unsigned ds = (False, ds)"
  by (cases ds) (auto simp: unsigned_def is_digit_def)

lemma unsigned_digits_app: "list_all is_digit ds \<Longrightarrow> ds \<noteq> [] \<Longrightarrow> unsigned (ds @ r) = (False, ds @ r)"
  by (cases ds) (auto simp: unsigned_def is_digit_def)

lemma py_float_decimal:
  assumes "list_all is_digit ip" "ip \<noteq> []" "list_all is_digit fp"
  shows "py_float ((if neg then ''-'' else []) @ ip @ CHR ''.'' # fp) =
           Inr ((if neg then - 1 else 1) * (of_nat (digits_val ip) + of_nat (digits_val fp) / 10 ^ length fp))"
proof -
  have u: "unsigned ((if neg then ''-'' else []) @ ip @ CHR ''.'' # fp) = (neg, ip @ CHR ''.'' # fp)"
    using assms(1,2) by (cases neg) (simp_all add: unsigned_minus unsigned_digits_app)
  show ?thesis
    unfolding py_float_def u
    using assms by (simp add: takeWhile_digits_dot dropWhile_digits_dot)
qed

lemma py_float_fmt_6f: "py_float (fmt_6f (of_int k / 10 ^ 6)) = Inr (of_int k / 10 ^ 6)"
proof -
  let ?n = "nat \<bar>k\<bar>"
  let ?ip = "show_nat (?n div 10 ^ 6)"
  let ?fr = "show_nat (?n mod 10 ^ 6)"
  let ?fp = "replicate (6 - length ?fr) (CHR ''0'') @ ?fr"
  have len: "length ?fr \<le> 6" by (rule length_show_nat) simp_all
  then have lfp: "length ?fp = 6" by simp
  have dfp: "list_all is_digit ?fp"
  proof -
    have "list_all is_digit (replicate (6 - length ?fr) (CHR ''0''))"
      by (simp add: list_all_iff is_digit_def)
    then show ?thesis using show_nat_digits[of "?n mod 10 ^ 6"] by simp
  qed
  have vfp: "digits_val ?fp = ?n mod 10 ^ 6"
    by (simp only: digits_val_zeros digits_val_show_nat)
  have "py_float (fmt_6f (of_int k / 10 ^ 6)) =
          Inr ((if k < 0 then - 1 else 1) * (of_nat (digits_val ?ip) + of_nat (digits_val ?fp) / 10 ^ length ?fp))"
    unfolding fmt_6f_micro
    using py_float_decimal[where ip="?ip" and fp="?fp" and neg="k < 0",
            OF show_nat_digits show_nat_nonempty dfp]
    by simp
  also have "of_nat (digits_val ?ip) + of_nat (digits_val ?fp) / 10 ^ length ?fp
               = (of_nat ?n :: rat) / 10 ^ 6"
  proof -
    have "(of_nat ?n :: rat) = of_nat (?n div 10 ^ 6 * 10 ^ 6 + ?n mod 10 ^ 6)" by simp
    also have "\<dots> = of_nat (?n div 10 ^ 6) * 10 ^ 6 + of_nat (?n mod 10 ^ 6)"
      by (simp only: of_nat_add of_nat_mult of_nat_power of_nat_numeral)
    finally show ?thesis
      unfolding lfp vfp digits_val_show_nat by (simp add: field_simps)
  qed
  also have "(if k < 0 then - 1 else 1) * ((of_nat ?n :: rat) / 10 ^ 6) = of_int k / 10 ^ 6"
    by (cases "k < 0") (simp_all add: abs_if)
  finally show ?thesis .
qed

subsection \<open>Splitting and stripping\<close>

lemma split_ws_word: "\<forall>ch\<in>set t. \<not> is_space ch \<Longrightarrow> split_ws cur (t @ s) = split_ws (cur @ t) s"
  by (induction t arbitrary: cur) simp_all

lemma space_is_space: "is_space (CHR '' '')"
  by (simp add: is_space_def)

lemma split_ws_words:
  "\<forall>t\<in>set r. t \<noteq> [] \<and> (\<forall>ch\<in>set t. \<not> is_space ch) \<Longrightarrow> cur \<noteq> [] \<Longrightarrow>
   split_ws cur (concat (map (\<lambda>y. CHR '' '' # y) r)) = cur # r"
proof (induction r arbitrary: cur)
  case Nil
  then show ?case by simp
next
  case (Cons y r)
  have "split_ws cur (concat (map (\<lambda>y. CHR '' '' # y) (y # r)))
          = cur # split_ws [] (y @ concat (map (\<lambda>y. CHR '' '' # y) r))"
    using Cons.prems(2) by (simp add: space_is_space)
  also have "split_ws [] (y @ concat (map (\<lambda>y. CHR '' '' # y) r)) = split_ws y (concat (map (\<lambda>y. CHR '' '' # y) r))"
    using Cons.prems(1) by (simp add: split_ws_word)
  also have "\<dots> = y # r"
    using Cons.prems(1) by (intro Cons.IH) simp_all
  finally show ?case .
qed

lemma append_single: "(@) [ch] = (#) ch"
  by (rule ext) simp

lemma py_split_join:
  assumes "\<forall>t\<in>set ts. t \<noteq> [] \<and> (\<forall>ch\<in>set t. \<not> is_space ch)"
  shows "py_split (py_join '' '' ts) = ts"
proof (cases ts)
  case Nil
  then show ?thesis by (simp add: py_split_def py_join_def)
next
  case (Cons t r)
  with assms have "split_ws [] (t @ concat (map (\<lambda>y. CHR '' '' # y) r)) = split_ws t (concat (map (\<lambda>y. CHR '' '' # y) r))"
    by (simp add: split_ws_word)
  also have "\<dots> = t # r" using assms Cons by (intro split_ws_words) simp_all
  finally show ?thesis using Cons by (simp add: py_split_def py_join_def append_single)
qed

lemma dropWhile_chars:
  "set xs \<subseteq> set chars \<Longrightarrow> y \<notin> set chars \<Longrightarrow>
   dropWhile (\<lambda>ch. ch \<in> set chars) (xs @ y # ys) = y # ys"
  by (induction xs) simp_all

lemma py_strip_core:
  assumes "set pre \<subseteq> set chars" "set post \<subseteq> set chars"
      and "core \<noteq> []" "hd core \<notin> set chars" "last core \<notin> set chars"
  shows "py_strip chars (pre @ core @ post) = core"
proof -
  obtain x xs where c1: "core = x # xs" using assms(3) by (cases core) auto
  obtain y ys where c2: "rev core = y # ys" using assms(3) by (cases "rev core") auto
  have x: "x \<notin> set chars" using assms(4) c1 by simp
  have "y = last core" using c2 by (metis last_rev list.sel(1) rev_rev_ident)
  then have y: "y \<notin> set chars" using assms(5) by simp
  have "dropWhile (\<lambda>ch. ch \<in> set chars) (pre @ core @ post) = core @ post"
    using dropWhile_chars[OF assms(1) x] unfolding c1 by simp
  moreover have "dropWhile (\<lambda>ch. ch \<in> set chars) (rev (core @ post)) = rev core"
    using dropWhile_chars[of "rev post" chars y ys] assms(2) y unfolding rev_append c2 by simp
  ultimately show ?thesis by (simp add: py_strip_def)
qed

lemma split_at_word: "d \<notin> set t \<Longrightarrow> split_at d cur (t @ s) = split_at d (cur @ t) s"
  by (induction t arbitrary: cur) auto

lemma split_on_pair: "d \<notin> set a \<Longrightarrow> d \<notin> set v \<Longrightarrow> split_on d (a @ d # v) = [a, v]"
  using split_at_word[of d a "[]" "d # v"] split_at_word[of d v "[]" "[]"]
  by (simp add: split_on_def)

lemma split_at_nonempty: "split_at d cur s \<noteq> []"
  by (induction s arbitrary: cur) simp_all

lemma split_at_join: "py_join [d] (split_at d cur s) = cur @ s"
proof (induction s arbitrary: cur)
  case Nil
  then show ?case by (simp add: py_join_def)
next
  case (Cons ch s)
  have "py_join [d] (cur # split_at d [] s) = cur @ d # py_join [d] (split_at d [] s)"
    using split_at_nonempty[of d "[]" s] by (cases "split_at d [] s") (simp_all add: py_join_def)
  with Cons show ?case by simp
qed

lemma split_on_two: "split_on d s = [a, v] \<Longrightarrow> s = a @ d # v"
  using split_at_join[of d "[]" s] by (simp add: split_on_def py_join_def)

subsection \<open>The answer of a device that reports what it was sent\<close>

lemma valid_axes_words: "valid_axes axs \<Longrightarrow> (\<forall>a\<in>set axs. axis_word a) \<and> axs \<noteq> []"
  by (auto simp: valid_axes_def axis_word_def strip_chars_def is_space_def is_ascii_def CR_def LF_def)

lemma six_decimals_micro: "six_decimals v \<Longrightarrow> v = of_int (py_round (v * 10 ^ 6)) / 10 ^ 6"
  by (simp add: six_decimals_def py_round_to_def)

lemma six_decimals_of_micro: "six_decimals (of_int k / 10 ^ 6)"
  by (simp add: six_decimals_def py_round_to_def py_round_of_int)

lemma six_decimals_round: "six_decimals (py_round_to 6 x)"
  unfolding py_round_to_def by (rule six_decimals_of_micro)

lemma six_decimals_of_int: "six_decimals (of_int k)"
proof -
  have "(of_int k :: rat) = of_int (k * 10 ^ 6) / 10 ^ 6" by simp
  then show ?thesis by (metis six_decimals_of_micro)
qed

lemma py_float_fmt: "six_decimals v \<Longrightarrow> py_float (fmt_6f v) = Inr v"
  using py_float_fmt_6f[of "py_round (v * 10 ^ 6)"] six_decimals_micro[of v] by simp

lemma fmt_6f_micro_chars:
  "ch \<in> set (fmt_6f (of_int k / 10 ^ 6)) \<Longrightarrow> is_digit ch \<or> ch = CHR ''-'' \<or> ch = CHR ''.''"
proof -
  let ?P = "\<lambda>ch. is_digit ch \<or> ch = CHR ''-'' \<or> ch = CHR ''.''"
  let ?n = "nat \<bar>k\<bar>"
  have d: "list_all is_digit s \<Longrightarrow> list_all ?P s" for s
    by (simp add: list_all_iff)
  have z: "is_digit (CHR ''0'')" by (simp add: is_digit_def)
  have 1: "list_all ?P (if k < 0 then ''-'' else [])" by simp
  have 2: "list_all ?P (show_nat (?n div 10 ^ 6))" by (rule d) (rule show_nat_digits)
  have 3: "list_all ?P (show_nat (?n mod 10 ^ 6))" by (rule d) (rule show_nat_digits)
  have 4: "list_all ?P (replicate m (CHR ''0''))" for m
    using z by (simp add: list_all_iff)
  have "list_all ?P (fmt_6f (of_int k / 10 ^ 6))"
  proof -
    have 5: "list_all ?P ''.''" by simp
    show ?thesis
      unfolding fmt_6f_micro list_all_append by (intro conjI 1 2 5 4 3)
  qed
  then show "ch \<in> set (fmt_6f (of_int k / 10 ^ 6)) \<Longrightarrow> ?P ch"
    unfolding list_all_iff by blast
qed

lemma fmt_6f_micro_last: "is_digit (last (fmt_6f (of_int k / 10 ^ 6)))"
  unfolding fmt_6f_micro
  using show_nat_digits[of "nat \<bar>k\<bar> mod 10 ^ 6"] show_nat_nonempty[of "nat \<bar>k\<bar> mod 10 ^ 6"]
  by (simp add: list_all_iff)

lemma fmt_6f_micro_nonempty: "fmt_6f (of_int k / 10 ^ 6) \<noteq> []"
  unfolding fmt_6f_micro using show_nat_nonempty by simp

lemma number_char:
  "is_digit ch \<or> ch = CHR ''-'' \<or> ch = CHR ''.'' \<Longrightarrow> \<not> is_space ch \<and> ch \<noteq> CHR ''='' \<and> is_ascii ch"
  by (auto simp: is_digit_def is_space_def is_ascii_def)

lemma fmt_6f_chars:
  assumes "six_decimals v"
  shows "fmt_6f v \<noteq> []" "last (fmt_6f v) \<notin> set strip_chars"
    "\<forall>ch\<in>set (fmt_6f v). \<not> is_space ch \<and> ch \<noteq> CHR ''='' \<and> is_ascii ch"
proof -
  obtain k where v: "v = of_int k / 10 ^ 6" using six_decimals_micro[OF assms] by blast
  show "fmt_6f v \<noteq> []" unfolding v by (rule fmt_6f_micro_nonempty)
  show "last (fmt_6f v) \<notin> set strip_chars"
    using fmt_6f_micro_last[of k] unfolding v
    by (auto simp: is_digit_def strip_chars_def CR_def LF_def)
  show "\<forall>ch\<in>set (fmt_6f v). \<not> is_space ch \<and> ch \<noteq> CHR ''='' \<and> is_ascii ch"
    using fmt_6f_micro_chars[of _ k] number_char unfolding v by blast
qed

lemma parse_tokens_echo:
  assumes "length axs = length vs" "\<forall>a\<in>set axs. axis_word a" "\<forall>v\<in>set vs. six_decimals v"
  shows "parse_tokens (echo_words axs vs) = Inr (axs, vs)"
  using assms
proof (induction axs vs rule: list_induct2)
  case Nil
  then show ?case by (simp add: echo_words_def)
next
  case (Cons a axs v vs)
  have "split_on (CHR ''='') (a @ CHR ''='' # fmt_6f v) = [a, fmt_6f v]"
    using Cons.prems fmt_6f_chars(3)[of v] by (intro split_on_pair) (auto simp: axis_word_def)
  moreover have "py_float (fmt_6f v) = Inr v" using Cons.prems by (simp add: py_float_fmt)
  moreover have "parse_tokens (echo_words axs vs) = Inr (axs, vs)" using Cons by simp
  ultimately show ?case by (simp add: echo_words_def bindE_def)
qed

lemma hd_py_join: "t \<noteq> [] \<Longrightarrow> hd (py_join sep (t # r)) = hd t"
  by (simp add: py_join_def)

lemma last_concat_sep:
  "r \<noteq> [] \<Longrightarrow> last r \<noteq> [] \<Longrightarrow> last (t @ concat (map (\<lambda>y. sep @ y) r)) = last (last r)"
proof (induction r arbitrary: t)
  case Nil
  then show ?case by simp
next
  case (Cons y r)
  show ?case
  proof (cases "r = []")
    case True
    with Cons.prems show ?thesis by simp
  next
    case False
    with Cons.prems have "last r \<noteq> []" by simp
    from Cons.IH[OF False this, of "t @ sep @ y"] False show ?thesis by simp
  qed
qed

lemma last_py_join: "ts \<noteq> [] \<Longrightarrow> last ts \<noteq> [] \<Longrightarrow> last (py_join sep ts) = last (last ts)"
proof (cases ts)
  case Nil
  then show "ts \<noteq> [] \<Longrightarrow> ?thesis" by simp
next
  case (Cons t r)
  assume "ts \<noteq> []" "last ts \<noteq> []"
  then show ?thesis using Cons last_concat_sep[of r t sep]
    by (cases "r = []") (simp_all add: py_join_def)
qed

lemma echo_word_props:
  assumes "axis_word a" "six_decimals v"
  shows "a @ ''='' @ fmt_6f v \<noteq> []"
    and "hd (a @ ''='' @ fmt_6f v) \<notin> set strip_chars"
    and "last (a @ ''='' @ fmt_6f v) \<notin> set strip_chars"
    and "\<forall>ch\<in>set (a @ ''='' @ fmt_6f v). \<not> is_space ch \<and> is_ascii ch"
proof -
  show "a @ ''='' @ fmt_6f v \<noteq> []" by simp
  show "hd (a @ ''='' @ fmt_6f v) \<notin> set strip_chars"
    using assms(1) by (simp add: axis_word_def)
  show "last (a @ ''='' @ fmt_6f v) \<notin> set strip_chars"
    using fmt_6f_chars(1,2)[OF assms(2)] by simp
  have "\<not> is_space (CHR ''='') \<and> is_ascii (CHR ''='')"
    by (simp add: is_space_def is_ascii_def)
  then show "\<forall>ch\<in>set (a @ ''='' @ fmt_6f v). \<not> is_space ch \<and> is_ascii ch"
    using assms(1) fmt_6f_chars(3)[OF assms(2)] by (auto simp: axis_word_def)
qed

lemma echo_words_props:
  assumes "\<forall>a\<in>set axs. axis_word a" "\<forall>v\<in>set vs. six_decimals v"
  shows "\<forall>t\<in>set (echo_words axs vs). t \<noteq> [] \<and> hd t \<notin> set strip_chars
            \<and> last t \<notin> set strip_chars \<and> (\<forall>ch\<in>set t. \<not> is_space ch \<and> is_ascii ch)"
proof
  fix t assume "t \<in> set (echo_words axs vs)"
  then obtain a v where t: "t = a @ ''='' @ fmt_6f v" and av: "(a, v) \<in> set (zip axs vs)"
    by (auto simp: echo_words_def)
  from av have "a \<in> set axs" "v \<in> set vs" by (auto dest: set_zip_leftD set_zip_rightD)
  with assms have "axis_word a" "six_decimals v" by auto
  from echo_word_props[OF this] show "t \<noteq> [] \<and> hd t \<notin> set strip_chars
            \<and> last t \<notin> set strip_chars \<and> (\<forall>ch\<in>set t. \<not> is_space ch \<and> is_ascii ch)"
    unfolding t by blast
qed

lemma strip_echo:
  assumes "axs \<noteq> []" "length axs = length vs"
      and "\<forall>a\<in>set axs. axis_word a" "\<forall>v\<in>set vs. six_decimals v"
  shows "py_strip strip_chars (line (echo_reply axs vs)) = py_join '' '' (echo_words axs vs)"
proof -
  let ?ws = "echo_words axs vs"
  have ne: "?ws \<noteq> []" using assms(1,2) by (cases axs; cases vs) (simp_all add: echo_words_def)
  then obtain t r where tr: "?ws = t # r" by (cases ?ws) auto
  note props = echo_words_props[OF assms(3,4)]
  have t: "t \<noteq> []" "hd t \<notin> set strip_chars" using props tr by auto
  have l: "last ?ws \<noteq> []" "last (last ?ws) \<notin> set strip_chars"
    using props ne last_in_set[OF ne] by auto
  have core: "py_join '' '' ?ws \<noteq> []" using t tr by (simp add: py_join_def)
  have h: "hd (py_join '' '' ?ws) \<notin> set strip_chars"
    unfolding tr using t by (simp add: hd_py_join)
  have la: "last (py_join '' '' ?ws) \<notin> set strip_chars"
    using l ne by (simp add: last_py_join)
  have "py_strip strip_chars ('':A '' @ py_join '' '' ?ws @ ('' '' @ [CR, LF])) = py_join '' '' ?ws"
    by (rule py_strip_core[OF _ _ core h la]) (simp_all add: strip_chars_def)
  then show ?thesis by (simp add: echo_reply_def)
qed

lemma echo_ascii:
  assumes "\<forall>a\<in>set axs. axis_word a" "\<forall>v\<in>set vs. six_decimals v"
  shows "list_all is_ascii (line (echo_reply axs vs))"
proof -
  have w: "\<forall>t\<in>set (echo_words axs vs). list_all is_ascii t"
    using echo_words_props[OF assms] by (simp add: list_all_iff)
  have j: "(\<forall>t\<in>set ts. list_all is_ascii t) \<Longrightarrow> list_all is_ascii (py_join '' '' ts)" for ts
    by (cases ts) (auto simp: py_join_def list_all_iff is_ascii_def)
  have "list_all is_ascii '':A ''" "list_all is_ascii ('' '' @ [CR, LF])"
    by (simp_all add: is_ascii_def CR_def LF_def)
  with j[OF w] show ?thesis by (simp add: echo_reply_def)
qed

lemma decode_echo:
  assumes "axs \<noteq> []" "length axs = length vs"
      and "\<forall>a\<in>set axs. axis_word a" "\<forall>v\<in>set vs. six_decimals v"
  shows "decode True True axs (py_strip strip_chars (line (echo_reply axs vs))) = Inr (Values vs)"
proof -
  let ?ws = "echo_words axs vs"
  note props = echo_words_props[OF assms(3,4)]
  have ne: "?ws \<noteq> []" using assms(1,2) by (cases axs; cases vs) (simp_all add: echo_words_def)
  then obtain t r where tr: "?ws = t # r" by (cases ?ws) auto
  have "t \<noteq> []" using props tr by auto
  then have core: "py_join '' '' ?ws \<noteq> []" using tr by (simp add: py_join_def)
  have sp: "py_split (py_join '' '' ?ws) = ?ws"
    using props by (intro py_split_join) blast
  show ?thesis
    unfolding strip_echo[OF assms] decode_def sp parse_tokens_echo[OF assms(2,3,4)]
    using core by (simp add: bindE_def)
qed

subsection \<open>One exchange\<close>

lemma send_ok:
  assumes "is_open c" "list_all is_ascii cmd" "clean (replies c (reads c))"
      and "decode respond pa (axes c) (py_strip strip_chars (line (replies c (reads c)))) = Inr r"
  shows "send cmd respond pa c = (Inr r, sent cmd c)"
  using assms by (simp add: send_def sent_def clean_def Let_def)

lemma send_noreply:
  assumes "is_open c" "list_all is_ascii cmd" "clean (replies c (reads c))"
  shows "send cmd False False c = (Inr NoReply, sent cmd c)"
  using assms by (intro send_ok) (simp_all add: decode_def)

lemma sent_simps:
  "is_open (sent cmd c) = is_open c" "axes (sent cmd c) = axes c"
  "replies (sent cmd c) = replies c" "reads (sent cmd c) = Suc (reads c)"
  "written (sent cmd c) = written c @ [cmd @ [CR]]"
  by (simp_all add: sent_def)

lemma andthen_Inr: "m c = (Inr x, c') \<Longrightarrow> andthen m f c = f x c'"
  by (simp add: andthen_def)

lemma andthen_Inl: "m c = (Inl e, c') \<Longrightarrow> andthen m f c = (Inl e, c')"
  by (simp add: andthen_def)

lemma py_join_ascii:
  "list_all is_ascii sep \<Longrightarrow> \<forall>t\<in>set ts. list_all is_ascii t \<Longrightarrow> list_all is_ascii (py_join sep ts)"
  by (cases ts) (auto simp: py_join_def list_all_iff)

lemma axis_word_ascii: "axis_word a \<Longrightarrow> list_all is_ascii a"
  by (simp add: axis_word_def list_all_iff)

lemma query_echo:
  assumes "is_open c" "axes c \<noteq> []" "\<forall>a\<in>set (axes c). axis_word a"
      and "list_all is_ascii kw"
      and "replies c (reads c) = echo_reply (axes c) vs"
      and "length vs = length (axes c)" "\<forall>v\<in>set vs. six_decimals v"
  shows "query kw c = (Inr vs, sent (kw @ py_join ''? '' (axes c) @ ''?'') c)"
proof -
  let ?cmd = "kw @ py_join ''? '' (axes c) @ ''?''"
  have a: "list_all is_ascii ?cmd"
    using assms(3,4) py_join_ascii[of "''? ''" "axes c"]
    by (simp add: axis_word_ascii is_ascii_def)
  have cl: "clean (replies c (reads c))"
    unfolding assms(5) clean_def using echo_ascii[OF assms(3,7)]
    by (simp add: echo_reply_def)
  have d: "decode True True (axes c) (py_strip strip_chars (line (replies c (reads c)))) = Inr (Values vs)"
    unfolding assms(5) using assms by (intro decode_echo) simp_all
  have "send ?cmd True True c = (Inr (Values vs), sent ?cmd c)"
    by (rule send_ok[OF assms(1) a cl d])
  then show ?thesis by (simp add: query_def andthen_def return_def)
qed

subsection \<open>Evaluating text\<close>

lemma digit_char_simps:
  "digit_char 0 = CHR ''0''" "digit_char 1 = CHR ''1''" "digit_char 2 = CHR ''2''"
  "digit_char 3 = CHR ''3''" "digit_char 4 = CHR ''4''" "digit_char 5 = CHR ''5''"
  "digit_char 6 = CHR ''6''" "digit_char 7 = CHR ''7''" "digit_char 8 = CHR ''8''"
  "digit_char 9 = CHR ''9''" "digit_char (Suc 0) = CHR ''1''"
  unfolding digit_char_def of_char_eq_iff[where 'a=nat, symmetric] by simp_all

lemma replicate_numeral: "replicate (numeral k) x = x # replicate (pred_numeral k) x"
  by (simp add: numeral_eq_Suc)

lemmas show_simps = show_nat.simps digit_char_simps replicate_numeral

lemma parse_tokens_shape:
  "parse_tokens toks = Inr (as, vs) \<Longrightarrow>
   length as = length toks \<and> length vs = length toks \<and>
   (\<forall>i<length toks. \<exists>val. toks ! i = as ! i @ ''='' @ val \<and> py_float val = Inr (vs ! i))"
proof (induction toks arbitrary: as vs)
  case Nil
  then show ?case by simp
next
  case (Cons t toks)
  from Cons.prems obtain axis val v as' vs'
    where sp: "split_on (CHR ''='') t = [axis, val]"
      and fl: "py_float val = Inr v"
      and rest: "parse_tokens toks = Inr (as', vs')"
      and eq: "as = axis # as'" "vs = v # vs'"
    by (auto simp: bindE_def split: list.splits sum.splits)
  have t: "t = axis @ ''='' @ val" using split_on_two[OF sp] by simp
  note ih = Cons.IH[OF rest]
  show ?case
  proof (intro conjI allI impI)
    show "length as = length (t # toks)" "length vs = length (t # toks)"
      using ih eq by simp_all
    fix i assume "i < length (t # toks)"
    then show "\<exists>val. (t # toks) ! i = as ! i @ ''='' @ val \<and> py_float val = Inr (vs ! i)"
      using ih eq t fl by (cases i) auto
  qed
qed

lemma yx_words: "answer_words yx_stage = [''X=1.000000'', ''Y=2.000000'']"
  by (simp add: answer_words_def yx_stage_def xy_stage_def script_def text_reply_def
        py_strip_def strip_chars_def CR_def LF_def py_split_def is_space_def)

lemma yx_parse: "parse_tokens [''X=1.000000'', ''Y=2.000000''] = Inr ([''X'', ''Y''], [1, 2])"
  by (simp add: split_on_def py_float_def unsigned_def is_digit_def digits_val_def
        digit_val_def bindE_def)

subsection \<open>Setting the TTL registers\<close>

lemma send_Inr: "send cmd respond pa c = (Inr x, c') \<Longrightarrow> c' = sent cmd c"
  by (auto simp: send_def sent_def Let_def split: if_splits sum.splits)

lemma strip_text_reply:
  "s \<noteq> [] \<Longrightarrow> hd s \<notin> set strip_chars \<Longrightarrow> last s \<notin> set strip_chars \<Longrightarrow>
   py_strip strip_chars (line (text_reply s)) = s"
  using py_strip_core[of "'':A ''" strip_chars "'' '' @ [CR, LF]" s]
  by (simp add: text_reply_def strip_chars_def)

lemma send_text:
  assumes "is_open c" "list_all is_ascii cmd" "replies c (reads c) = text_reply s"
      and "list_all is_ascii s" "s \<noteq> []" "hd s \<notin> set strip_chars" "last s \<notin> set strip_chars"
  shows "send cmd True False c = (Inr (Text s), sent cmd c)"
proof -
  have cl: "clean (replies c (reads c))"
    using assms(4) by (simp add: assms(3) clean_def text_reply_def is_ascii_def CR_def LF_def)
  show ?thesis
    by (rule send_ok[OF assms(1,2) cl])
       (simp add: assms(3) strip_text_reply[OF assms(5,6,7)] decode_def assms(5))
qed

lemma get_ttl_in_mode_ok:
  assumes "is_open c" "replies c (reads c) = text_reply (''X='' @ code)"
      and "map_of code2mode_in code = Some m"
  shows "get_ttl_in_mode c = (Inr m, (sent ''TTL X?'' c)\<lparr>ttl_in_mode := Some m\<rparr>)"
proof -
  from assms(3) have code: "code = ''0'' \<or> code = ''10''"
    by (simp add: code2mode_in_def split: if_splits)
  then have s: "send ''TTL X?'' True False c = (Inr (Text (''X='' @ code)), sent ''TTL X?'' c)"
    using assms(1,2)
    by (intro send_text) (auto simp: is_ascii_def strip_chars_def CR_def LF_def)
  have sp: "nth_e (split_on (CHR ''='') (py_rstrip (''X='' @ code))) 1 = Inr code"
    using code by (auto simp: py_rstrip_def is_space_def split_on_def nth_e_def)
  show ?thesis
    using sp by (simp add: get_ttl_in_mode_def ttl_code_def s andthen_def lift_def return_def assms(3))
qed

lemma get_ttl_out_mode_ok:
  assumes "is_open c" "replies c (reads c) = text_reply (''Y='' @ code)"
      and "map_of code2mode_out code = Some m"
  shows "get_ttl_out_mode c = (Inr m, (sent ''TTL Y?'' c)\<lparr>ttl_out_mode := Some m\<rparr>)"
proof -
  from assms(3) have code: "code = ''0'' \<or> code = ''1'' \<or> code = ''9''"
    by (simp add: code2mode_out_def split: if_splits)
  then have s: "send ''TTL Y?'' True False c = (Inr (Text (''Y='' @ code)), sent ''TTL Y?'' c)"
    using assms(1,2)
    by (intro send_text) (auto simp: is_ascii_def strip_chars_def CR_def LF_def)
  have sp: "nth_e (split_on (CHR ''='') (py_rstrip (''Y='' @ code))) 1 = Inr code"
    using code by (auto simp: py_rstrip_def is_space_def split_on_def nth_e_def)
  show ?thesis
    using sp by (simp add: get_ttl_out_mode_def ttl_code_def s andthen_def lift_def return_def assms(3))
qed

lemma get_ttl_in_mode_Inr:
  "get_ttl_in_mode c = (Inr m, c') \<Longrightarrow> c' = (sent ''TTL X?'' c)\<lparr>ttl_in_mode := Some m\<rparr>"
  by (auto simp: get_ttl_in_mode_def andthen_def ttl_code_def lift_def raise_def return_def
           dest!: send_Inr split: prod.splits sum.splits response.splits option.splits)

lemma get_ttl_out_mode_Inr:
  "get_ttl_out_mode c = (Inr m, c') \<Longrightarrow> c' = (sent ''TTL Y?'' c)\<lparr>ttl_out_mode := Some m\<rparr>"
  by (auto simp: get_ttl_out_mode_def andthen_def ttl_code_def lift_def raise_def return_def
           dest!: send_Inr split: prod.splits sum.splits response.splits option.splits)

lemma set_ttl_in_mode_Inr:
  assumes "set_ttl_in_mode mode c = (Inr u, c')"
  shows "\<exists>code. map_of mode2code_in mode = Some code \<and> c' = after_ttl_in code mode c"
proof -
  from assms obtain code where code: "map_of mode2code_in mode = Some code"
    by (cases "map_of mode2code_in mode") (simp_all add: set_ttl_in_mode_def raise_def)
  from assms obtain r c1 m c2 where
      s: "send (''TTL X='' @ code) False False c = (Inr r, c1)"
      and g: "get_ttl_in_mode (c1\<lparr>ttl_in_mode := None\<rparr>) = (Inr m, c2)"
      and m: "m = mode" "c' = c2"
    by (auto simp: set_ttl_in_mode_def code andthen_def assert_def return_def raise_def
             split: prod.splits sum.splits if_splits)
  from send_Inr[OF s] get_ttl_in_mode_Inr[OF g] m code show ?thesis
    by (simp add: after_ttl_in_def)
qed

lemma set_ttl_out_mode_Inr:
  assumes "set_ttl_out_mode mode c = (Inr u, c')"
  shows "\<exists>code. map_of mode2code_out mode = Some code \<and> c' = after_ttl_out code mode c"
proof -
  from assms obtain code where code: "map_of mode2code_out mode = Some code"
    by (cases "map_of mode2code_out mode") (simp_all add: set_ttl_out_mode_def raise_def)
  from assms obtain r c1 m c2 where
      s: "send (''TTL Y='' @ code) False False c = (Inr r, c1)"
      and g: "get_ttl_out_mode (c1\<lparr>ttl_out_mode := None\<rparr>) = (Inr m, c2)"
      and m: "m = mode" "c' = c2"
    by (auto simp: set_ttl_out_mode_def code andthen_def assert_def return_def raise_def
             split: prod.splits sum.splits if_splits)
  from send_Inr[OF s] get_ttl_out_mode_Inr[OF g] m code show ?thesis
    by (simp add: after_ttl_out_def)
qed

lemma set_ttl_in_mode_ok:
  assumes "is_open c" "map_of mode2code_in mode = Some code"
      and "clean (replies c (reads c))"
      and "replies c (Suc (reads c)) = text_reply (''X='' @ code)"
  shows "set_ttl_in_mode mode c = (Inr (), after_ttl_in code mode c)"
proof -
  from assms(2) have mc: "(mode = ''disabled'' \<and> code = ''0'') \<or> (mode = ''toggle_ttl_out'' \<and> code = ''10'')"
    by (simp add: mode2code_in_def split: if_splits)
  then have inv: "map_of code2mode_in code = Some mode" and a: "list_all is_ascii (''TTL X='' @ code)"
    by (auto simp: code2mode_in_def is_ascii_def)
  have s: "send (''TTL X='' @ code) False False c = (Inr NoReply, sent (''TTL X='' @ code) c)"
    by (rule send_noreply[OF assms(1) a assms(3)])
  let ?c1 = "(sent (''TTL X='' @ code) c)\<lparr>ttl_in_mode := None\<rparr>"
  have g: "get_ttl_in_mode ?c1 = (Inr mode, (sent ''TTL X?'' ?c1)\<lparr>ttl_in_mode := Some mode\<rparr>)"
    using assms(1,4) inv by (intro get_ttl_in_mode_ok) (simp_all add: sent_def)
  show ?thesis
    using s g by (simp add: set_ttl_in_mode_def assms(2) andthen_def assert_def return_def after_ttl_in_def)
qed

lemma set_ttl_out_mode_ok:
  assumes "is_open c" "map_of mode2code_out mode = Some code"
      and "clean (replies c (reads c))"
      and "replies c (Suc (reads c)) = text_reply (''Y='' @ code)"
  shows "set_ttl_out_mode mode c = (Inr (), after_ttl_out code mode c)"
proof -
  from assms(2) have mc: "(mode = ''low'' \<and> code = ''0'') \<or> (mode = ''high'' \<and> code = ''1'')
                          \<or> (mode = ''pwm'' \<and> code = ''9'')"
    by (simp add: mode2code_out_def split: if_splits)
  then have inv: "map_of code2mode_out code = Some mode" and a: "list_all is_ascii (''TTL Y='' @ code)"
    by (auto simp: code2mode_out_def is_ascii_def)
  have s: "send (''TTL Y='' @ code) False False c = (Inr NoReply, sent (''TTL Y='' @ code) c)"
    by (rule send_noreply[OF assms(1) a assms(3)])
  let ?c1 = "(sent (''TTL Y='' @ code) c)\<lparr>ttl_out_mode := None\<rparr>"
  have g: "get_ttl_out_mode ?c1 = (Inr mode, (sent ''TTL Y?'' ?c1)\<lparr>ttl_out_mode := Some mode\<rparr>)"
    using assms(1,4) inv by (intro get_ttl_out_mode_ok) (simp_all add: sent_def)
  show ?thesis
    using s g by (simp add: set_ttl_out_mode_def assms(2) andthen_def assert_def return_def after_ttl_out_def)
qed

lemma set_pwm_state_row:
  assumes "map_of state_table name = Some (m_in, m_out)"
  shows "set_pwm_state name =
           andthen (set_ttl_in_mode m_in) (\<lambda>_.
           andthen (set_ttl_out_mode m_out) (\<lambda>_ c. (Inr (), c\<lparr>state := Some name\<rparr>)))"
proof -
  from assms consider
      "name = ''off''" "m_in = ''disabled''" "m_out = ''low''"
    | "name = ''on''" "m_in = ''disabled''" "m_out = ''high''"
    | "name = ''pwm''" "m_in = ''disabled''" "m_out = ''pwm''"
    | "name = ''external''" "m_in = ''toggle_ttl_out''" "m_out = ''low''"
    by (auto simp: state_table_def split: if_splits)
  then show ?thesis
    by cases
       (rule ext,
        simp add: set_pwm_state_def andthen_def assert_def return_def
             split: prod.splits sum.splits)+
qed

lemma after_ttl_simps:
  "is_open (after_ttl_in code mode c) = is_open c"
  "replies (after_ttl_in code mode c) = replies c"
  "reads (after_ttl_in code mode c) = reads c + 2"
  "written (after_ttl_in code mode c) = written c @ [''TTL X='' @ code @ [CR], ''TTL X?'' @ [CR]]"
  "ttl_in_mode (after_ttl_in code mode c) = Some mode"
  "ttl_out_mode (after_ttl_in code mode c) = ttl_out_mode c"
  "state (after_ttl_in code mode c) = state c"
  "is_open (after_ttl_out code mode c) = is_open c"
  "replies (after_ttl_out code mode c) = replies c"
  "reads (after_ttl_out code mode c) = reads c + 2"
  "written (after_ttl_out code mode c) = written c @ [''TTL Y='' @ code @ [CR], ''TTL Y?'' @ [CR]]"
  "ttl_in_mode (after_ttl_out code mode c) = ttl_in_mode c"
  "ttl_out_mode (after_ttl_out code mode c) = Some mode"
  "state (after_ttl_out code mode c) = state c"
  by (simp_all add: after_ttl_in_def after_ttl_out_def sent_def)

lemma set_pwm_state_Inr:
  assumes "map_of state_table name = Some (m_in, m_out)"
      and "set_pwm_state name c = (Inr u, c')"
  shows "\<exists>c_in c_out. map_of mode2code_in m_in = Some c_in \<and> map_of mode2code_out m_out = Some c_out
           \<and> c' = (after_ttl_out c_out m_out (after_ttl_in c_in m_in c))\<lparr>state := Some name\<rparr>"
proof -
  from assms(2) obtain u1 c1 u2 c2 where
      i: "set_ttl_in_mode m_in c = (Inr u1, c1)"
      and o: "set_ttl_out_mode m_out c1 = (Inr u2, c2)"
      and c': "c' = c2\<lparr>state := Some name\<rparr>"
    unfolding set_pwm_state_row[OF assms(1)]
    by (auto simp: andthen_def split: prod.splits sum.splits)
  from set_ttl_in_mode_Inr[OF i] set_ttl_out_mode_Inr[OF o] c' show ?thesis by auto
qed

lemma set_pwm_state_ok:
  assumes "map_of state_table name = Some (m_in, m_out)"
      and "map_of mode2code_in m_in = Some c_in" "map_of mode2code_out m_out = Some c_out"
      and "is_open c"
      and "clean (replies c (reads c))" "replies c (reads c + 1) = text_reply (''X='' @ c_in)"
      and "clean (replies c (reads c + 2))" "replies c (reads c + 3) = text_reply (''Y='' @ c_out)"
  shows "set_pwm_state name c =
           (Inr (), (after_ttl_out c_out m_out (after_ttl_in c_in m_in c))\<lparr>state := Some name\<rparr>)"
proof -
  have i: "set_ttl_in_mode m_in c = (Inr (), after_ttl_in c_in m_in c)"
    using assms by (intro set_ttl_in_mode_ok) simp_all
  have o: "set_ttl_out_mode m_out (after_ttl_in c_in m_in c)
             = (Inr (), after_ttl_out c_out m_out (after_ttl_in c_in m_in c))"
    using assms by (intro set_ttl_out_mode_ok) (simp_all add: after_ttl_simps eval_nat_numeral)
  show ?thesis
    unfolding set_pwm_state_row[OF assms(1)] using i o by (simp add: andthen_def)
qed

lemma send_Inr_open: "send cmd respond pa c = (Inr x, c') \<Longrightarrow> is_open c"
  by (auto simp: send_def split: if_splits)

lemma set_ttl_in_mode_Inr_open: "set_ttl_in_mode mode c = (Inr u, c') \<Longrightarrow> is_open c"
  by (auto simp: set_ttl_in_mode_def andthen_def raise_def
           dest: send_Inr_open split: option.splits prod.splits sum.splits)

lemma set_pwm_state_Inr_open:
  assumes "map_of state_table name = Some (m_in, m_out)" "set_pwm_state name c = (Inr u, c')"
  shows "is_open c"
  using assms(2) unfolding set_pwm_state_row[OF assms(1)]
  by (auto simp: andthen_def dest: set_ttl_in_mode_Inr_open split: prod.splits sum.splits)

lemma off_row: "map_of state_table ''off'' = Some (''disabled'', ''low'')"
  by (simp add: state_table_def)

lemma off_codes: "map_of mode2code_in ''disabled'' = Some ''0''" "map_of mode2code_out ''low'' = Some ''0''"
  by (simp_all add: mode2code_in_def mode2code_out_def)

subsection \<open>Setting the PWM intensity\<close>

lemma digit_props:
  assumes "is_digit ch"
  shows "ch \<notin> set strip_chars" "\<not> is_space ch" "is_ascii ch" "ch \<noteq> CHR ''=''"
    "ch \<noteq> CHR ''-''" "ch \<noteq> CHR ''+''"
  using assms
  by (auto simp: is_digit_def strip_chars_def is_space_def is_ascii_def CR_def LF_def)

lemma show_nat_hd_last: "is_digit (hd (show_nat n))" "is_digit (last (show_nat n))"
  using show_nat_digits[of n] show_nat_nonempty[of n]
  by (simp_all add: list_all_iff)

lemma py_int_of_str_show_nat: "py_int_of_str (show_nat n) = Inr (int n)"
proof -
  let ?ws = "[CHR 0x09, LF, CHR 0x0B, CHR 0x0C, CR, CHR 0x1C, CHR 0x1D, CHR 0x1E, CHR 0x1F, CHR '' '']"
  have nd: "\<not> is_digit ch" if "ch \<in> set ?ws" for ch
    using that by (auto simp: is_digit_def CR_def LF_def)
  have "py_strip ?ws ([] @ show_nat n @ []) = show_nat n"
    using show_nat_hd_last[of n] nd by (intro py_strip_core show_nat_nonempty) auto
  then have st: "py_strip ?ws (show_nat n) = show_nat n" by simp
  show ?thesis
    unfolding py_int_of_str_def st
    by (simp add: unsigned_digits[OF show_nat_digits] show_nat_digits show_nat_nonempty
          digits_val_show_nat)
qed

lemma pwm_answer:
  "py_strip strip_chars (line (pwm_reply (int n))) = ''X='' @ show_nat n"
proof -
  have l: "last (''X='' @ show_nat n) \<notin> set strip_chars"
    using digit_props(1)[OF show_nat_hd_last(2)[of n]] show_nat_nonempty[of n] by simp
  have "py_strip strip_chars ([] @ (''X='' @ show_nat n) @ ('' :A'' @ [CR, LF])) = ''X='' @ show_nat n"
    by (rule py_strip_core[OF _ _ _ _ l]) (simp_all add: strip_chars_def CR_def LF_def)
  then show ?thesis by (simp add: pwm_reply_def fmt_d_def)
qed

lemma show_nat_ascii: "list_all is_ascii (show_nat n)"
  using show_nat_digits[of n] digit_props(3) by (simp add: list_all_iff)

lemma get_pwm_intensity_ok:
  assumes "is_open c" "replies c (reads c) = pwm_reply (int n)"
  shows "get_pwm_intensity c = (Inr (int n), (sent ''LED X?'' c)\<lparr>pwm_intensity := int n\<rparr>)"
proof -
  have cl: "clean (replies c (reads c))"
    using show_nat_ascii[of n]
    by (simp add: assms(2) clean_def pwm_reply_def fmt_d_def is_ascii_def CR_def LF_def)
  have s: "send ''LED X?'' True False c = (Inr (Text (''X='' @ show_nat n)), sent ''LED X?'' c)"
    by (rule send_ok[OF assms(1) _ cl])
       (simp_all add: is_ascii_def assms(2) pwm_answer decode_def)
  have "\<forall>ch\<in>set (show_nat n). ch \<noteq> CHR ''=''"
    using show_nat_digits[of n] digit_props(4) by (auto simp: list_all_iff)
  then have "split_on (CHR ''='') (''X'' @ CHR ''='' # show_nat n) = [''X'', show_nat n]"
    by (intro split_on_pair) auto
  then have sp: "nth_e (split_on (CHR ''='') (''X='' @ show_nat n)) 1 = Inr (show_nat n)"
    by (simp add: nth_e_def)
  show ?thesis
    using sp by (simp add: get_pwm_intensity_def andthen_def s lift_def py_int_of_str_show_nat)
qed

lemma py_int_of_int: "py_int (of_int v) = v"
  by (simp add: py_int_def)

lemma set_pwm_intensity_refused:
  "v < 1 \<or> 99 < v \<Longrightarrow> set_pwm_intensity (of_int v) c = (Inl RangeError, c)"
  by (auto simp: set_pwm_intensity_def py_int_of_int andthen_def assert_def raise_def)

lemma set_pwm_intensity_ok:
  assumes "1 \<le> v" "v \<le> 99" "is_open c" "clean (replies c (reads c))"
      and "replies c (reads c + 1) = pwm_reply v"
  shows "set_pwm_intensity (of_int v) c =
           (Inr (), (sent ''LED X?'' (sent (''LED X='' @ fmt_d v) c))\<lparr>pwm_intensity := v\<rparr>)"
proof -
  obtain n where v: "v = int n" using assms(1) by (metis nonneg_int_cases order_trans zero_le_one)
  have a: "list_all is_ascii (''LED X='' @ fmt_d v)"
    using show_nat_ascii[of n] by (simp add: v fmt_d_def is_ascii_def)
  have s: "send (''LED X='' @ fmt_d v) False False c = (Inr NoReply, sent (''LED X='' @ fmt_d v) c)"
    by (rule send_noreply[OF assms(3) a assms(4)])
  have "get_pwm_intensity (sent (''LED X='' @ fmt_d v) c)
             = (Inr (int n), (sent ''LED X?'' (sent (''LED X='' @ fmt_d v) c))\<lparr>pwm_intensity := int n\<rparr>)"
    using assms(3,5) by (intro get_pwm_intensity_ok) (simp_all add: sent_simps v)
  then have g: "get_pwm_intensity (sent (''LED X='' @ fmt_d v) c)
             = (Inr v, (sent ''LED X?'' (sent (''LED X='' @ fmt_d v) c))\<lparr>pwm_intensity := v\<rparr>)"
    by (simp only: v)
  show ?thesis
    using assms(1,2) s g
    by (simp add: set_pwm_intensity_def py_int_of_int andthen_def assert_def return_def)
qed

subsection \<open>The targets of a move\<close>

lemma nth_e_simps: "i < length xs \<Longrightarrow> nth_e xs i = Inr (xs ! i)"
  "\<not> i < length xs \<Longrightarrow> nth_e xs i = Inl IndexError"
  by (simp_all add: nth_e_def)

lemma bindE_simps: "bindE (Inr x) f = f x" "bindE (Inl e) f = Inl e"
  by (simp_all add: bindE_def)

lemma resolve_move_out:
  assumes "i + length mv \<le> length (position_um c)" "i + length mv \<le> length (min_position_um c)"
      and "i + length mv \<le> length (max_position_um c)"
      and "\<exists>j<length mv. \<not> in_range c (i + j) (target c relative (i + j) (mv ! j))"
  shows "resolve_move c relative i mv = Inl RangeError"
  using assms
proof (induction mv arbitrary: i)
  case Nil
  then show ?case by simp
next
  case (Cons m mv)
  have t: "(case m of None \<Rightarrow> nth_e (position_um c) i
            | Some d \<Rightarrow> if relative then bindE (nth_e (position_um c) i) (\<lambda>p. Inr (p + d)) else Inr d)
           = Inr (target c relative i m)"
    using Cons.prems(1) by (simp add: target_def nth_e_simps bindE_simps split: option.splits)
  show ?case
  proof (cases "in_range c i (target c relative i m)")
    case False
    then show ?thesis
      using Cons.prems(2,3) by (auto simp: t bindE_simps nth_e_simps in_range_def)
  next
    case True
    with Cons.prems(4) obtain j where "j < length mv"
        "\<not> in_range c (Suc i + j) (target c relative (Suc i + j) (mv ! j))"
      by (auto simp: less_Suc_eq_0_disj)
    then have "resolve_move c relative (Suc i) mv = Inl RangeError"
      using Cons.prems(1,2,3) by (intro Cons.IH) auto
    then show ?thesis
      using True Cons.prems(2,3) by (simp add: t bindE_simps nth_e_simps in_range_def)
  qed
qed

lemma resolve_move_Inr:
  "resolve_move c relative i mv = Inr ts \<Longrightarrow>
   length ts = length mv \<and>
   (\<forall>j<length mv. ts ! j = target c relative (i + j) (mv ! j)
                  \<and> in_range c (i + j) (ts ! j))"
proof (induction mv arbitrary: i ts)
  case Nil
  then show ?case by simp
next
  case (Cons m mv)
  from Cons.prems obtain t ts' where
      t: "(case m of None \<Rightarrow> nth_e (position_um c) i
            | Some d \<Rightarrow> if relative then bindE (nth_e (position_um c) i) (\<lambda>p. Inr (p + d)) else Inr d)
           = Inr t"
      and r: "in_range c i t"
      and rest: "resolve_move c relative (Suc i) mv = Inr ts'"
      and ts: "ts = t # ts'"
    by (auto simp: bindE_def nth_e_def in_range_def split: sum.splits if_splits)
  from t have tt: "t = target c relative i m"
    by (auto simp: target_def nth_e_def bindE_def split: option.splits if_splits sum.splits)
  note ih = Cons.IH[OF rest]
  show ?case
  proof (intro conjI allI impI)
    show "length ts = length (m # mv)" using ih ts by simp
    fix j assume "j < length (m # mv)"
    then show "ts ! j = target c relative (i + j) ((m # mv) ! j)"
      and "in_range c (i + j) (ts ! j)"
      using ih ts tt r by (cases j; simp)+
  qed
qed

lemma finish_moving_idle: "\<not> moving c \<Longrightarrow> finish_moving c = Some (Inr (), c)"
  by (simp add: finish_moving_def)

lemma move_um_out_of_range:
  assumes "\<not> moving c" "length mv = length (axes c)" "sized c"
      and "\<exists>i<length mv. \<not> in_range c i (target c relative i (mv ! i))"
  shows "move_um mv relative block c = Some (Inl RangeError, c)"
proof -
  have "resolve_move c relative 0 mv = Inl RangeError"
    using assms by (intro resolve_move_out) (simp_all add: sized_def Let_def)
  then have "start_move mv relative c = (Inl RangeError, c)"
    using assms(2) by (simp add: start_move_def andthen_def assert_def return_def lift_def)
  then show ?thesis by (simp add: move_um_def finish_moving_idle[OF assms(1)])
qed

subsection \<open>What waiting for a move leaves alone\<close>

lemma motion_frame_refl: "motion_frame c c"
  by (simp add: motion_frame_def)

lemma motion_frame_trans: "motion_frame a b \<Longrightarrow> motion_frame b c \<Longrightarrow> motion_frame a c"
  by (cases a, cases b, cases c) (simp add: motion_frame_def)

lemma motion_frame_fields:
  assumes "motion_frame c c'"
  shows "target_move_um c' = target_move_um c" "axes c' = axes c" "is_open c' = is_open c"
    "replies c' = replies c" "precision_um c' = precision_um c"
    "min_position_um c' = min_position_um c" "max_position_um c' = max_position_um c"
    "encoder_counts_per_um c' = encoder_counts_per_um c"
  using assms by (cases c, cases c', simp add: motion_frame_def)+

lemma send_frame: "send cmd respond pa c = (res, c') \<Longrightarrow> motion_frame c c'"
  by (auto simp: send_def Let_def motion_frame_def split: if_splits sum.splits)

lemma wait_not_busy_frame:
  assumes "wait_not_busy c = Some y"
  shows "motion_frame c (snd y)"
proof (rule wait_not_busy.raw_induct[where P = "\<lambda>c y. motion_frame c (snd y)" and c = c and y = y])
  fix wait :: "controller \<Rightarrow> ((error + unit) \<times> controller) option" and c ca
  assume ih: "\<And>c y. wait c = Some y \<Longrightarrow> motion_frame c (snd y)"
  assume body: "(case send ''/'' True False c of
                   (Inl e, c') \<Rightarrow> Some (Inl e, c')
                 | (Inr status, c') \<Rightarrow>
                     if status = Text ''N'' then Some (Inr (), c') else wait c') = Some ca"
  obtain res c1 where s: "send ''/'' True False c = (res, c1)" by force
  note f = send_frame[OF s]
  show "motion_frame c (snd ca)"
  proof (cases res)
    case (Inl e)
    with body s f show ?thesis by auto
  next
    case (Inr status)
    show ?thesis
    proof (cases "status = Text ''N''")
      case True
      with body s f Inr show ?thesis by auto
    next
      case False
      with body s Inr have "wait c1 = Some ca" by simp
      from ih[OF this] f show ?thesis by (rule motion_frame_trans[rotated])
    qed
  qed
next
  show "wait_not_busy c = Some y" by fact
qed

lemma get_position_frame: "get_position c = (res, c') \<Longrightarrow> motion_frame c c'"
proof -
  assume g: "get_position c = (res, c')"
  obtain r c1 where s: "send (''W '' @ py_join '' '' (axes c)) True False c = (r, c1)" by force
  note f = send_frame[OF s]
  have "c' = c1 \<or> (\<exists>ps. c' = c1\<lparr>position_um := ps\<rparr>)"
    using g s
    by (auto simp: get_position_def andthen_def lift_def raise_def
             split: sum.splits response.splits prod.splits)
  then have "motion_frame c1 c'"
    by (cases c1) (auto simp: motion_frame_def)
  with f show ?thesis by (rule motion_frame_trans)
qed

lemma finish_moving_frame: "finish_moving c = Some (res, c') \<Longrightarrow> motion_frame c c'"
proof -
  assume fm: "finish_moving c = Some (res, c')"
  show ?thesis
  proof (cases "moving c")
    case False
    with fm show ?thesis by (simp add: finish_moving_def motion_frame_refl)
  next
    case True
    with fm obtain r1 c1 where w: "wait_not_busy c = Some (r1, c1)"
      by (cases "wait_not_busy c") (auto simp: finish_moving_def)
    from wait_not_busy_frame[OF w] have f1: "motion_frame c c1" by simp
    show ?thesis
    proof (cases r1)
      case (Inl e)
      with fm True w f1 show ?thesis by (simp add: finish_moving_def)
    next
      case (Inr u1)
      obtain r2 c2 where g: "get_position c1 = (r2, c2)" by force
      note f2 = get_position_frame[OF g]
      have "c' = c2 \<or> c' = c2\<lparr>moving := False\<rparr>"
        using fm True w Inr g
        by (auto simp: finish_moving_def andthen_def lift_def split: sum.splits prod.splits)
      then have "motion_frame c2 c'" by (cases c2) (auto simp: motion_frame_def)
      with f1 f2 show ?thesis by (blast intro: motion_frame_trans)
    qed
  qed
qed

lemma fmt_6f_ascii: "six_decimals v \<Longrightarrow> list_all is_ascii (fmt_6f v)"
  using fmt_6f_chars(3)[of v] by (simp add: list_all_iff)

lemma move_words_ok:
  assumes "i + length axs \<le> length counts" "\<forall>a\<in>set axs. list_all is_ascii a"
  shows "\<exists>ws. move_words counts i axs = Inr ws \<and> (\<forall>w\<in>set ws. list_all is_ascii w)"
  using assms
proof (induction axs arbitrary: i)
  case Nil
  then show ?case by simp
next
  case (Cons a axs)
  from Cons.prems have "\<exists>ws. move_words counts (Suc i) axs = Inr ws \<and> (\<forall>w\<in>set ws. list_all is_ascii w)"
    by (intro Cons.IH) auto
  then obtain ws where ws: "move_words counts (Suc i) axs = Inr ws" "\<forall>w\<in>set ws. list_all is_ascii w"
    by blast
  have e: "list_all is_ascii ''=''" "list_all is_ascii '' ''" by (simp_all add: is_ascii_def)
  have "list_all is_ascii (a @ ''='' @ fmt_6f (of_int (counts ! i)) @ '' '')"
    using Cons.prems(2) fmt_6f_ascii[OF six_decimals_of_int, of "counts ! i"] e
    by simp
  with ws Cons.prems(1) show ?case by (simp add: nth_e_simps bindE_simps)
qed

lemma start_move_ok:
  assumes "is_open c" "\<forall>a\<in>set (axes c). axis_word a" "sized c" "length mv = length (axes c)"
      and "resolve_move c relative 0 mv = Inr ts" "clean (replies c (reads c))"
  shows "\<exists>cmd. start_move mv relative c
           = (Inr (), (sent cmd c)\<lparr>moving := True, target_move_um := map (py_round_to 3) ts\<rparr>)"
proof -
  let ?tgt = "map (py_round_to 3) ts"
  have lt: "length ts = length mv" using resolve_move_Inr[OF assms(5)] by simp
  have lc: "length (position2counts c ?tgt) = length (axes c)"
    using assms(3,4) lt by (simp add: position2counts_def sized_def Let_def)
  have "\<exists>ws. move_words (position2counts c ?tgt) 0 (axes c) = Inr ws \<and> (\<forall>w\<in>set ws. list_all is_ascii w)"
    using lc assms(2) by (intro move_words_ok) (simp_all add: axis_word_ascii)
  then obtain ws where ws: "move_words (position2counts c ?tgt) 0 (axes c) = Inr ws"
      "\<forall>w\<in>set ws. list_all is_ascii w" by blast
  have m: "list_all is_ascii ''M ''" by (simp add: is_ascii_def)
  have a: "list_all is_ascii (concat (''M '' # ws))"
    using ws(2) m by (auto simp: list_all_iff)
  note s = send_noreply[OF assms(1) a assms(6)]
  show ?thesis
    using assms(4,5) ws(1) s
    by (auto simp: start_move_def andthen_def assert_def return_def lift_def Let_def)
qed

lemma start_move_Inr:
  assumes "start_move mv relative c = (Inr u, c')"
  shows "\<exists>ts. resolve_move c relative 0 mv = Inr ts
           \<and> target_move_um c' = map (py_round_to 3) ts \<and> moving c'
           \<and> position_um c' = position_um c"
proof -
  from assms obtain ts ws r c1 where
      ts: "resolve_move c relative 0 mv = Inr ts"
      and s: "send (concat (''M '' # ws)) False False c = (Inr r, c1)"
      and c': "c' = c1\<lparr>moving := True, target_move_um := map (py_round_to 3) ts\<rparr>"
    by (auto simp: start_move_def andthen_def assert_def return_def raise_def lift_def Let_def
             split: if_splits sum.splits prod.splits)
  from send_Inr[OF s] c' ts show ?thesis by (simp add: sent_def)
qed

lemma py_round_to_of_int: "py_round_to n (of_int k) = of_int k"
proof -
  have "(of_int k :: rat) * 10 ^ n = of_int (k * 10 ^ n)" by simp
  then have "py_round (of_int k * 10 ^ n) = k * 10 ^ n" by (simp only: py_round_of_int)
  then show ?thesis by (simp add: py_round_to_def)
qed

lemma moved_stage_resolve:
  "resolve_move moved_stage True 0 [Some 2000, None] = Inr [2100, 250]"
  by (simp add: moved_stage_def xy_stage_def nth_e_def bindE_def)

lemma moved_stage_props:
  "is_open moved_stage" "\<forall>a\<in>set (axes moved_stage). axis_word a" "sized moved_stage"
  "length [Some (2000::rat), None] = length (axes moved_stage)"
  "clean (replies moved_stage (reads moved_stage))" "\<not> moving moved_stage"
  by (simp_all add: moved_stage_def xy_stage_def sized_def axis_word_def strip_chars_def
        is_space_def is_ascii_def CR_def LF_def script_def clean_def text_reply_def)

subsection \<open>The loops of the set operations\<close>

lemma set_words_Cons:
  "i < length axs \<Longrightarrow>
   set_words kw (drop i axs) (v # vs) = (kw @ axs ! i @ ''='' @ fmt_6f v @ '' '') # set_words kw (drop (Suc i) axs) vs"
  by (simp add: set_words_def Cons_nth_drop_Suc[symmetric])

lemma velocity_loop_ok:
  assumes "i + length xs \<le> length (axes c)" "i + length xs \<le> length (max_velocity_mmps c)"
      and "\<forall>j<length xs. velocity_ok c (i + j) (xs ! j)"
  shows "velocity_loop c i (map Some xs)
           = Inr (map (py_round_to 6) xs, set_words ''V'' (drop i (axes c)) (map (py_round_to 6) xs))"
  using assms
proof (induction xs arbitrary: i)
  case Nil
  then show ?case by (simp add: set_words_def)
next
  case (Cons x xs)
  from Cons.prems(3) have x: "velocity_ok c i x" by force
  from Cons.prems(3) have "\<forall>j<length xs. velocity_ok c (Suc i + j) (xs ! j)" by force
  with Cons.prems(1,2) have ih: "velocity_loop c (Suc i) (map Some xs)
           = Inr (map (py_round_to 6) xs, set_words ''V'' (drop (Suc i) (axes c)) (map (py_round_to 6) xs))"
    by (intro Cons.IH) simp_all
  show ?case
    using x Cons.prems(1,2) ih
    by (simp add: velocity_ok_def nth_e_simps bindE_simps set_words_Cons Let_def)
qed

lemma velocity_loop_out:
  assumes "i + length xs \<le> length (axes c)" "i + length xs \<le> length (max_velocity_mmps c)"
      and "\<exists>j<length xs. \<not> velocity_ok c (i + j) (xs ! j)"
  shows "velocity_loop c i (map Some xs) = Inl RangeError"
  using assms
proof (induction xs arbitrary: i)
  case Nil
  then show ?case by simp
next
  case (Cons x xs)
  show ?case
  proof (cases "velocity_ok c i x")
    case False
    then show ?thesis
      using Cons.prems(1,2) by (auto simp: velocity_ok_def nth_e_simps bindE_simps)
  next
    case True
    with Cons.prems(3) obtain j where "j < length xs" "\<not> velocity_ok c (Suc i + j) (xs ! j)"
      by (auto simp: less_Suc_eq_0_disj)
    then have "velocity_loop c (Suc i) (map Some xs) = Inl RangeError"
      using Cons.prems(1,2) by (intro Cons.IH) auto
    then show ?thesis
      using True Cons.prems(1,2) by (simp add: velocity_ok_def nth_e_simps bindE_simps Let_def)
  qed
qed

lemma acceleration_loop_ok:
  assumes "i + length xs \<le> length (axes c)" "i + length xs \<le> length (min_acceleration_ms c)" "i + length xs \<le> length (max_acceleration_ms c)"
      and "\<forall>j<length xs. acceleration_ok c (i + j) (xs ! j)"
  shows "acceleration_loop c i (map Some xs)
           = Inr (map py_round xs, set_words ''AC'' (drop i (axes c)) (map (\<lambda>x. of_int (py_round x)) xs))"
  using assms
proof (induction xs arbitrary: i)
  case Nil
  then show ?case by (simp add: set_words_def)
next
  case (Cons x xs)
  from Cons.prems(4) have x: "acceleration_ok c i x" by force
  from Cons.prems(4) have "\<forall>j<length xs. acceleration_ok c (Suc i + j) (xs ! j)" by force
  with Cons.prems have ih: "acceleration_loop c (Suc i) (map Some xs)
           = Inr (map py_round xs, set_words ''AC'' (drop (Suc i) (axes c)) (map (\<lambda>x. of_int (py_round x)) xs))"
    by (intro Cons.IH) simp_all
  show ?case
    using x Cons.prems ih
    by (simp add: acceleration_ok_def nth_e_simps bindE_simps set_words_Cons Let_def)
qed

lemma acceleration_loop_out:
  assumes "i + length xs \<le> length (axes c)" "i + length xs \<le> length (min_acceleration_ms c)" "i + length xs \<le> length (max_acceleration_ms c)"
      and "\<exists>j<length xs. \<not> acceleration_ok c (i + j) (xs ! j)"
  shows "acceleration_loop c i (map Some xs) = Inl RangeError"
  using assms
proof (induction xs arbitrary: i)
  case Nil
  then show ?case by simp
next
  case (Cons x xs)
  show ?case
  proof (cases "acceleration_ok c i x")
    case False
    then show ?thesis
      using Cons.prems by (auto simp: acceleration_ok_def nth_e_simps bindE_simps Let_def)
  next
    case True
    with Cons.prems(4) obtain j where "j < length xs" "\<not> acceleration_ok c (Suc i + j) (xs ! j)"
      by (auto simp: less_Suc_eq_0_disj)
    then have "acceleration_loop c (Suc i) (map Some xs) = Inl RangeError"
      using Cons.prems by (intro Cons.IH) auto
    then show ?thesis
      using True Cons.prems by (simp add: acceleration_ok_def nth_e_simps bindE_simps Let_def)
  qed
qed

lemma settle_time_loop_ok:
  assumes "i + length xs \<le> length (axes c)" "i + length xs \<le> length (max_settle_time_ms c)"
      and "\<forall>j<length xs. settle_time_ok c (i + j) (xs ! j)"
  shows "settle_time_loop c i (map Some xs)
           = Inr (map py_round xs, set_words ''WT'' (drop i (axes c)) (map (\<lambda>x. of_int (py_round x)) xs))"
  using assms
proof (induction xs arbitrary: i)
  case Nil
  then show ?case by (simp add: set_words_def)
next
  case (Cons x xs)
  from Cons.prems(3) have x: "settle_time_ok c i x" by force
  from Cons.prems(3) have "\<forall>j<length xs. settle_time_ok c (Suc i + j) (xs ! j)" by force
  with Cons.prems have ih: "settle_time_loop c (Suc i) (map Some xs)
           = Inr (map py_round xs, set_words ''WT'' (drop (Suc i) (axes c)) (map (\<lambda>x. of_int (py_round x)) xs))"
    by (intro Cons.IH) simp_all
  show ?case
    using x Cons.prems ih
    by (simp add: settle_time_ok_def nth_e_simps bindE_simps set_words_Cons Let_def)
qed

lemma settle_time_loop_out:
  assumes "i + length xs \<le> length (axes c)" "i + length xs \<le> length (max_settle_time_ms c)"
      and "\<exists>j<length xs. \<not> settle_time_ok c (i + j) (xs ! j)"
  shows "settle_time_loop c i (map Some xs) = Inl RangeError"
  using assms
proof (induction xs arbitrary: i)
  case Nil
  then show ?case by simp
next
  case (Cons x xs)
  show ?case
  proof (cases "settle_time_ok c i x")
    case False
    then show ?thesis
      using Cons.prems by (auto simp: settle_time_ok_def nth_e_simps bindE_simps Let_def)
  next
    case True
    with Cons.prems(3) obtain j where "j < length xs" "\<not> settle_time_ok c (Suc i + j) (xs ! j)"
      by (auto simp: less_Suc_eq_0_disj)
    then have "settle_time_loop c (Suc i) (map Some xs) = Inl RangeError"
      using Cons.prems by (intro Cons.IH) auto
    then show ?thesis
      using True Cons.prems by (simp add: settle_time_ok_def nth_e_simps bindE_simps Let_def)
  qed
qed

lemma precision_loop_ok:
  assumes "i + length xs \<le> length (axes c)" "i + length xs \<le> length (min_precision_um c)" "i + length xs \<le> length (max_precision_um c)"
      and "\<forall>j<length xs. precision_ok c (i + j) (xs ! j)"
  shows "precision_loop c i (map Some xs)
           = Inr (map py_round xs, set_words ''PC'' (drop i (axes c)) (map (\<lambda>x. of_int (py_round x) / 10 ^ 6) xs))"
  using assms
proof (induction xs arbitrary: i)
  case Nil
  then show ?case by (simp add: set_words_def)
next
  case (Cons x xs)
  from Cons.prems(4) have x: "precision_ok c i x" by force
  from Cons.prems(4) have "\<forall>j<length xs. precision_ok c (Suc i + j) (xs ! j)" by force
  with Cons.prems have ih: "precision_loop c (Suc i) (map Some xs)
           = Inr (map py_round xs, set_words ''PC'' (drop (Suc i) (axes c)) (map (\<lambda>x. of_int (py_round x) / 10 ^ 6) xs))"
    by (intro Cons.IH) simp_all
  show ?case
    using x Cons.prems ih
    by (simp add: precision_ok_def nth_e_simps bindE_simps set_words_Cons Let_def)
qed

lemma precision_loop_out:
  assumes "i + length xs \<le> length (axes c)" "i + length xs \<le> length (min_precision_um c)" "i + length xs \<le> length (max_precision_um c)"
      and "\<exists>j<length xs. \<not> precision_ok c (i + j) (xs ! j)"
  shows "precision_loop c i (map Some xs) = Inl RangeError"
  using assms
proof (induction xs arbitrary: i)
  case Nil
  then show ?case by simp
next
  case (Cons x xs)
  show ?case
  proof (cases "precision_ok c i x")
    case False
    then show ?thesis
      using Cons.prems by (auto simp: precision_ok_def nth_e_simps bindE_simps Let_def)
  next
    case True
    with Cons.prems(4) obtain j where "j < length xs" "\<not> precision_ok c (Suc i + j) (xs ! j)"
      by (auto simp: less_Suc_eq_0_disj)
    then have "precision_loop c (Suc i) (map Some xs) = Inl RangeError"
      using Cons.prems by (intro Cons.IH) auto
    then show ?thesis
      using True Cons.prems by (simp add: precision_ok_def nth_e_simps bindE_simps Let_def)
  qed
qed

subsection \<open>Set, then query\<close>

lemma set_words_ascii:
  assumes "\<forall>a\<in>set axs. axis_word a" "\<forall>v\<in>set vs. six_decimals v" "list_all is_ascii kw"
  shows "\<forall>w\<in>set (set_words kw axs vs). list_all is_ascii w"
proof
  fix w assume "w \<in> set (set_words kw axs vs)"
  then obtain a v where w: "w = kw @ a @ ''='' @ fmt_6f v @ '' ''" and av: "(a, v) \<in> set (zip axs vs)"
    by (auto simp: set_words_def)
  from av have "a \<in> set axs" "v \<in> set vs" by (auto dest: set_zip_leftD set_zip_rightD)
  with assms have "list_all is_ascii a" "list_all is_ascii (fmt_6f v)"
    by (auto simp: axis_word_ascii fmt_6f_ascii)
  moreover have "list_all is_ascii ''=''" "list_all is_ascii '' ''" by (simp_all add: is_ascii_def)
  ultimately show "list_all is_ascii w" using assms(3) unfolding w by simp
qed

lemma set_command_ascii:
  assumes "\<forall>a\<in>set axs. axis_word a" "\<forall>v\<in>set vs. six_decimals v" "list_all is_ascii kw"
      and "list_all is_ascii w"
  shows "list_all is_ascii (concat (kw # set_words w axs vs))"
  using set_words_ascii[OF assms(1,2,4)] assms(3) by (auto simp: list_all_iff)

lemma set_then_query:
  assumes "is_open c" "axes c \<noteq> []" "\<forall>a\<in>set (axes c). axis_word a"
      and "list_all is_ascii kw" "list_all is_ascii w"
      and "clean (replies c (reads c))"
      and "replies c (Suc (reads c)) = echo_reply (axes c) rs"
      and "length vs = length (axes c)" "\<forall>v\<in>set vs. six_decimals v"
      and "length rs = length (axes c)" "\<forall>v\<in>set rs. six_decimals v"
  shows "send (concat (kw # set_words w (axes c) vs)) False False c
           = (Inr NoReply, sent (concat (kw # set_words w (axes c) vs)) c)"
    and "query kw (sent (concat (kw # set_words w (axes c) vs)) c) = (Inr rs, after_set kw w vs c)"
proof -
  let ?cmd = "concat (kw # set_words w (axes c) vs)"
  have a: "list_all is_ascii ?cmd" by (rule set_command_ascii[OF assms(3,9,4,5)])
  show "send ?cmd False False c = (Inr NoReply, sent ?cmd c)"
    by (rule send_noreply[OF assms(1) a assms(6)])
  have "query kw (sent ?cmd c)
          = (Inr rs, sent (kw @ py_join ''? '' (axes (sent ?cmd c)) @ ''?'') (sent ?cmd c))"
    using assms by (intro query_echo) (simp_all add: sent_simps)
  then show "query kw (sent ?cmd c) = (Inr rs, after_set kw w vs c)"
    by (simp add: after_set_def sent_simps)
qed

lemma valid_sized:
  assumes "valid_axes (axes c)" "sized c" "length xs = length (axes c)"
  shows "axes c \<noteq> []" "\<forall>a\<in>set (axes c). axis_word a"
    "0 + length xs \<le> length (axes c)" "0 + length xs \<le> length (max_velocity_mmps c)"
    "0 + length xs \<le> length (min_acceleration_ms c)" "0 + length xs \<le> length (max_acceleration_ms c)"
    "0 + length xs \<le> length (max_settle_time_ms c)" "0 + length xs \<le> length (tol_settle_time_ms c)"
    "0 + length xs \<le> length (min_precision_um c)" "0 + length xs \<le> length (max_precision_um c)"
  using valid_axes_words[OF assms(1)] assms(2,3) by (simp_all add: sized_def Let_def)

lemma all_Some: "list_all (\<lambda>v. v \<noteq> None) (map Some xs)"
  "list_all (\<lambda>v. \<exists>y. v = Some y) (map Some xs)"
  by (simp_all add: list_all_iff)

lemma set_velocity_ok:
  assumes "is_open c" "valid_axes (axes c)" "sized c" "length xs = length (axes c)"
      and "\<forall>j<length xs. velocity_ok c j (xs ! j)"
      and "clean (replies c (reads c))"
      and "replies c (Suc (reads c)) = echo_reply (axes c) (map (py_round_to 6) xs)"
  shows "set_velocity (map Some xs) c
           = (Inr (), (after_set ''S '' ''V'' (map (py_round_to 6) xs) c)
                        \<lparr>velocity_mmps := map (py_round_to 6) xs\<rparr>)"
proof -
  let ?vs = "map (py_round_to 6) xs"
  note vz = valid_sized[OF assms(2,3,4)]
  have loop: "velocity_loop c 0 (map Some xs) = Inr (?vs, set_words ''V'' (axes c) ?vs)"
    using velocity_loop_ok[OF vz(3,4)] assms(5) by simp
  have six: "\<forall>v\<in>set ?vs. six_decimals v" by (simp add: six_decimals_round)
  have k: "list_all is_ascii ''S ''" "list_all is_ascii ''V''" by (simp_all add: is_ascii_def)
  have l: "length ?vs = length (axes c)" using assms(4) by simp
  note sq = set_then_query[OF assms(1) vz(1,2) k assms(6,7) l six l six]
  show ?thesis
    using sq assms(4)
    by (simp add: set_velocity_def get_velocity_def andthen_def assert_def return_def lift_def
          all_Some loop)
qed

lemma after_set_simps:
  "is_open (after_set kw w vs c) = is_open c" "axes (after_set kw w vs c) = axes c"
  "replies (after_set kw w vs c) = replies c" "reads (after_set kw w vs c) = Suc (Suc (reads c))"
  "written (after_set kw w vs c)
     = written c @ [concat (kw # set_words w (axes c) vs) @ [CR],
                    (kw @ py_join ''? '' (axes c) @ ''?'') @ [CR]]"
  by (simp_all add: after_set_def sent_def)

lemma set_acceleration_ok:
  assumes "is_open c" "valid_axes (axes c)" "sized c" "length xs = length (axes c)"
      and "\<forall>j<length xs. acceleration_ok c j (xs ! j)"
      and "clean (replies c (reads c))"
      and "replies c (Suc (reads c)) = echo_reply (axes c) (map (\<lambda>x. of_int (py_round x)) xs)"
  shows "set_acceleration (map Some xs) c
           = (Inr (), (after_set ''AC '' ''AC'' (map (\<lambda>x. of_int (py_round x)) xs) c)
                        \<lparr>acceleration_ms := map (\<lambda>x. of_int (py_round x)) xs\<rparr>)"
proof -
  let ?vs = "map (\<lambda>x. of_int (py_round x)) xs :: rat list"
  note vz = valid_sized[OF assms(2,3,4)]
  have loop: "acceleration_loop c 0 (map Some xs) = Inr (map py_round xs, set_words ''AC'' (axes c) ?vs)"
    using acceleration_loop_ok[OF vz(3,5,6)] assms(5) by simp
  have six: "\<forall>v\<in>set ?vs. six_decimals v" by (auto simp: six_decimals_of_int)
  have k: "list_all is_ascii ''AC ''" "list_all is_ascii ''AC''" by (simp_all add: is_ascii_def)
  have l: "length ?vs = length (axes c)" using assms(4) by simp
  note sq = set_then_query[OF assms(1) vz(1,2) k assms(6,7) l six l six]
  show ?thesis
    using sq assms(4)
    by (simp add: set_acceleration_def get_acceleration_def andthen_def assert_def return_def
          lift_def all_Some loop comp_def)
qed

lemma py_round_micro: "py_round (10 ^ 6 * (of_int k / 10 ^ 6)) = k"
proof -
  have "(10 ^ 6 * (of_int k / 10 ^ 6) :: rat) = of_int k" by simp
  then show ?thesis by (simp only: py_round_of_int)
qed

lemma set_precision_ok:
  assumes "is_open c" "valid_axes (axes c)" "sized c" "length xs = length (axes c)"
      and "\<forall>j<length xs. precision_ok c j (xs ! j)"
      and "clean (replies c (reads c))"
      and "replies c (Suc (reads c)) = echo_reply (axes c) (map (\<lambda>x. of_int (py_round x) / 10 ^ 6) xs)"
  shows "set_precision (map Some xs) c
           = (Inr (), (after_set ''PC '' ''PC'' (map (\<lambda>x. of_int (py_round x) / 10 ^ 6) xs) c)
                        \<lparr>precision_um := map py_round xs\<rparr>)"
proof -
  let ?vs = "map (\<lambda>x. of_int (py_round x) / 10 ^ 6) xs :: rat list"
  note vz = valid_sized[OF assms(2,3,4)]
  have loop: "precision_loop c 0 (map Some xs) = Inr (map py_round xs, set_words ''PC'' (axes c) ?vs)"
    using precision_loop_ok[OF vz(3,9,10)] assms(5) by simp
  have six: "\<forall>v\<in>set ?vs. six_decimals v" using six_decimals_of_micro by auto
  have k: "list_all is_ascii ''PC ''" "list_all is_ascii ''PC''" by (simp_all add: is_ascii_def)
  have l: "length ?vs = length (axes c)" using assms(4) by simp
  have bk: "map (\<lambda>p. py_round (10 ^ 6 * p)) ?vs = map py_round xs"
    by (simp add: comp_def py_round_of_int)
  note sq = set_then_query[OF assms(1) vz(1,2) k assms(6,7) l six l six]
  show ?thesis
    using sq assms(4) bk
    by (simp add: set_precision_def get_precision_def andthen_def assert_def return_def
          lift_def all_Some loop Let_def)
qed

lemma settle_time_check_ok:
  assumes "length ks = length rs" "i + length ks \<le> length tol"
      and "\<forall>j<length ks. \<bar>rs ! j - of_int (ks ! j)\<bar> \<le> tol ! (i + j)"
  shows "settle_time_check tol i (zip ks rs) = Inr ()"
  using assms
proof (induction ks rs arbitrary: i rule: list_induct2)
  case Nil
  then show ?case by simp
next
  case (Cons k ks r rs)
  from Cons.prems(2) have "\<bar>r - of_int k\<bar> \<le> tol ! i" by force
  then have h: "of_int k - tol ! i \<le> r" "r \<le> of_int k + tol ! i" by linarith+
  from Cons.prems(2) have "\<forall>j<length ks. \<bar>rs ! j - of_int (ks ! j)\<bar> \<le> tol ! (Suc i + j)" by force
  with Cons.prems(1) have "settle_time_check tol (Suc i) (zip ks rs) = Inr ()"
    by (intro Cons.IH) simp_all
  with h Cons.prems(1) show ?case by (simp add: nth_e_simps bindE_simps)
qed

lemma set_settle_time_ok:
  assumes "is_open c" "valid_axes (axes c)" "sized c" "length xs = length (axes c)"
      and "\<forall>j<length xs. settle_time_ok c j (xs ! j)"
      and "clean (replies c (reads c))"
      and "replies c (Suc (reads c)) = echo_reply (axes c) rs"
      and "length rs = length (axes c)" "\<forall>v\<in>set rs. six_decimals v"
      and "\<forall>j<length xs. \<bar>rs ! j - of_int (py_round (xs ! j))\<bar> \<le> tol_settle_time_ms c ! j"
  shows "set_settle_time (map Some xs) c
           = (Inr (), (after_set ''WT '' ''WT'' (map (\<lambda>x. of_int (py_round x)) xs) c)
                        \<lparr>settle_time_ms := rs\<rparr>)"
proof -
  let ?vs = "map (\<lambda>x. of_int (py_round x)) xs :: rat list"
  note vz = valid_sized[OF assms(2,3,4)]
  have loop: "settle_time_loop c 0 (map Some xs) = Inr (map py_round xs, set_words ''WT'' (axes c) ?vs)"
    using settle_time_loop_ok[OF vz(3,7)] assms(5) by simp
  have six: "\<forall>v\<in>set ?vs. six_decimals v" by (auto simp: six_decimals_of_int)
  have k: "list_all is_ascii ''WT ''" "list_all is_ascii ''WT''" by (simp_all add: is_ascii_def)
  have l: "length ?vs = length (axes c)" using assms(4) by simp
  have chk: "settle_time_check (tol_settle_time_ms c) 0 (zip (map py_round xs) rs) = Inr ()"
    using assms(4,8,10) vz(8) by (intro settle_time_check_ok) simp_all
  note sq = set_then_query[OF assms(1) vz(1,2) k assms(6,7) l six assms(8,9)]
  show ?thesis
    using sq assms(4) chk
    by (simp add: set_settle_time_def get_settle_time_def andthen_def assert_def return_def
          lift_def all_Some loop after_set_def sent_def)
qed

lemma fmt_6f_micro_one: "fmt_6f (1 / 1000000) = ''0.000001''"
  using fmt_6f_micro[of 1] by (simp add: show_simps)

subsection \<open>Rounding between integer bounds\<close>

lemma py_round_bounds:
  "of_int k \<le> x \<Longrightarrow> k \<le> py_round x" "x \<le> of_int k \<Longrightarrow> py_round x \<le> k"
proof -
  assume "of_int k \<le> x"
  then have "k \<le> \<lfloor>x\<rfloor>" by (simp add: le_floor_iff)
  then show "k \<le> py_round x" by (auto simp: py_round_def Let_def)
next
  assume h: "x \<le> of_int k"
  show "py_round x \<le> k"
  proof (cases "x = of_int k")
    case True
    then show ?thesis by (simp add: py_round_of_int)
  next
    case False
    with h have "x < of_int k" by simp
    then have "\<lfloor>x\<rfloor> < k" by (simp add: floor_less_iff)
    then show ?thesis by (auto simp: py_round_def Let_def)
  qed
qed

lemma query_after:
  assumes "is_open c" "axes c \<noteq> []" "\<forall>a\<in>set (axes c). axis_word a" "list_all is_ascii kw"
      and "replies c (Suc (Suc (reads c))) = echo_reply (axes c) rs"
      and "length rs = length (axes c)" "\<forall>v\<in>set rs. six_decimals v"
      and "is_open c2 = is_open c" "axes c2 = axes c" "replies c2 = replies c"
          "reads c2 = Suc (Suc (reads c))"
  shows "fst (query kw c2) = Inr rs"
proof -
  have "query kw c2 = (Inr rs, sent (kw @ py_join ''? '' (axes c2) @ ''?'') c2)"
    using assms by (intro query_echo) simp_all
  then show ?thesis by simp
qed

lemma fst_andthen_query:
  "fst (query kw c) = Inr rs \<Longrightarrow> fst (andthen (query kw) (\<lambda>vs c. (Inr (f vs), g vs c)) c) = Inr (f rs)"
  by (cases "query kw c") (simp add: andthen_def)

lemma py_round_near:
  assumes "\<bar>x - of_int k\<bar> < 1 / 2"
  shows "py_round x = k"
proof (cases "of_int k \<le> x")
  case True
  with assms have "x < of_int k + 1" by linarith
  with True have f: "\<lfloor>x\<rfloor> = k" by (simp add: floor_unique)
  from assms True have "x - of_int k < 1 / 2" by linarith
  then show ?thesis by (simp add: py_round_def f Let_def)
next
  case False
  with assms have 1: "of_int k - 1 \<le> x" and 2: "x < of_int k" by linarith+
  have f: "\<lfloor>x\<rfloor> = k - 1" by (rule floor_unique) (use 1 2 in simp_all)
  from assms False have "1 / 2 < x - (of_int k - 1)" by linarith
  then show ?thesis by (simp add: py_round_def f Let_def)
qed

lemma echo_stage_props:
  "is_open (echo_stage vs)" "valid_axes (axes (echo_stage vs))" "sized (echo_stage vs)"
  "built (echo_stage vs)" "length [a, b] = length (axes (echo_stage vs))"
  "clean (replies (echo_stage vs) (reads (echo_stage vs)))"
  "reports (echo_stage vs) vs"
  "max_velocity_mmps (echo_stage vs) = [7, 7]" "max_settle_time_ms (echo_stage vs) = [1000, 1000]"
  by (simp_all add: echo_stage_def xy_stage_def valid_axes_def sized_def built_def script_def
        clean_def text_reply_def is_ascii_def CR_def LF_def reports_def eval_nat_numeral)

subsection \<open>Where a range error can come from, and what was written before it\<close>

lemma py_float_error: "py_float s = Inl e \<Longrightarrow> e = ValueError"
  by (auto simp: py_float_def Let_def split: prod.splits if_splits)

lemma parse_tokens_error: "parse_tokens ts = Inl e \<Longrightarrow> e = ValueError"
proof (induction ts arbitrary: e)
  case Nil
  then show ?case by simp
next
  case (Cons t ts)
  then show ?case
    by (auto simp: bindE_def dest: py_float_error split: list.splits sum.splits prod.splits)
qed

lemma send_error: "send cmd respond pa c = (Inl e, c') \<Longrightarrow> e \<noteq> RangeError"
  by (auto simp: send_def decode_def Let_def bindE_def dest: parse_tokens_error
           split: if_splits sum.splits prod.splits)

lemma send_written:
  "send cmd respond pa c = (res, c') \<Longrightarrow>
   written c' = written c \<or> written c' = written c @ [cmd @ [CR]]"
  by (auto simp: send_def Let_def split: if_splits sum.splits)

lemma wait_not_busy_writes:
  assumes "wait_not_busy c = Some y"
  shows "fst y \<noteq> Inl RangeError
         \<and> (\<exists>ls. written (snd y) = written c @ ls \<and> set ls \<subseteq> {''/'' @ [CR]})"
proof (rule wait_not_busy.raw_induct[where
         P = "\<lambda>c y. fst y \<noteq> Inl RangeError
                \<and> (\<exists>ls. written (snd y) = written c @ ls \<and> set ls \<subseteq> {''/'' @ [CR]})"
         and c = c and y = y])
  fix wait :: "controller \<Rightarrow> ((error + unit) \<times> controller) option" and c ca
  assume ih: "\<And>c y. wait c = Some y \<Longrightarrow> fst y \<noteq> Inl RangeError
                \<and> (\<exists>ls. written (snd y) = written c @ ls \<and> set ls \<subseteq> {''/'' @ [CR]})"
  assume body: "(case send ''/'' True False c of
                   (Inl e, c') \<Rightarrow> Some (Inl e, c')
                 | (Inr status, c') \<Rightarrow>
                     if status = Text ''N'' then Some (Inr (), c') else wait c') = Some ca"
  obtain res c1 where s: "send ''/'' True False c = (res, c1)" by force
  from send_written[OF s] obtain l1 where w1: "written c1 = written c @ l1" "set l1 \<subseteq> {''/'' @ [CR]}"
    by (cases "written c1 = written c") auto
  show "fst ca \<noteq> Inl RangeError
          \<and> (\<exists>ls. written (snd ca) = written c @ ls \<and> set ls \<subseteq> {''/'' @ [CR]})"
  proof (cases res)
    case (Inl e)
    with body s w1 send_error[of "''/''" True False c e c1] show ?thesis by auto
  next
    case (Inr status)
    show ?thesis
    proof (cases "status = Text ''N''")
      case True
      with body s w1 Inr show ?thesis by auto
    next
      case False
      with body s Inr have "wait c1 = Some ca" by simp
      from ih[OF this] obtain l2 where "fst ca \<noteq> Inl RangeError"
          "written (snd ca) = written c1 @ l2" "set l2 \<subseteq> {''/'' @ [CR]}" by blast
      with w1 show ?thesis by (intro conjI exI[of _ "l1 @ l2"]) auto
    qed
  qed
next
  show "wait_not_busy c = Some y" by fact
qed

lemma counts2position_error: "counts2position zs = Inl e \<Longrightarrow> e \<noteq> RangeError"
proof (induction zs arbitrary: e)
  case Nil
  then show ?case by simp
next
  case (Cons z zs)
  then show ?case
    by (cases z) (auto simp: bindE_def dest: py_float_error split: sum.splits if_splits)
qed

lemma tolerance_check_error: "tolerance_check c i ps = Inl e \<Longrightarrow> e \<noteq> RangeError"
proof (induction ps arbitrary: i e)
  case Nil
  then show ?case by simp
next
  case (Cons p ps)
  then show ?case
    by (auto simp: bindE_def nth_e_def split: sum.splits if_splits)
qed

lemma get_position_writes:
  assumes "get_position c = (res, c')"
  shows "res \<noteq> Inl RangeError
         \<and> (\<exists>ls. written c' = written c @ ls \<and> set ls \<subseteq> {(''W '' @ py_join '' '' (axes c)) @ [CR]})"
proof -
  obtain r c1 where s: "send (''W '' @ py_join '' '' (axes c)) True False c = (r, c1)" by force
  from send_written[OF s] have w: "\<exists>ls. written c1 = written c @ ls
      \<and> set ls \<subseteq> {(''W '' @ py_join '' '' (axes c)) @ [CR]}"
    by (cases "written c1 = written c") auto
  have "written c' = written c1"
    using assms s
    by (auto simp: get_position_def andthen_def lift_def raise_def
             split: sum.splits response.splits prod.splits)
  moreover have "res \<noteq> Inl RangeError"
    using assms s send_error[of _ True False c _ c1]
    by (auto simp: get_position_def andthen_def lift_def raise_def
             dest: counts2position_error
             split: sum.splits response.splits prod.splits)
  ultimately show ?thesis using w by simp
qed

lemma finish_moving_writes:
  assumes "finish_moving c = Some (res, c')"
  shows "res \<noteq> Inl RangeError
         \<and> (\<exists>ls. written c' = written c @ ls \<and> set ls \<subseteq> finishing_lines c)"
proof (cases "moving c")
  case False
  with assms show ?thesis by (auto simp: finish_moving_def)
next
  case True
  with assms obtain r1 c1 where w: "wait_not_busy c = Some (r1, c1)"
    by (cases "wait_not_busy c") (auto simp: finish_moving_def)
  from wait_not_busy_writes[OF w] obtain l1 where
      r1: "r1 \<noteq> Inl RangeError" and l1: "written c1 = written c @ l1" "set l1 \<subseteq> {''/'' @ [CR]}"
    by auto
  show ?thesis
  proof (cases r1)
    case (Inl e)
    with assms True w r1 l1 show ?thesis
      by (auto simp: finish_moving_def finishing_lines_def)
  next
    case (Inr u1)
    obtain r2 c2 where g: "get_position c1 = (r2, c2)" by force
    from wait_not_busy_frame[OF w] have ax: "axes c1 = axes c"
      by (simp add: motion_frame_fields)
    from get_position_writes[OF g] ax obtain l2 where
        r2: "r2 \<noteq> Inl RangeError" and l2: "written c2 = written c1 @ l2"
        "set l2 \<subseteq> {(''W '' @ py_join '' '' (axes c)) @ [CR]}"
      by auto
    have "written c' = written c2 \<and> res \<noteq> Inl RangeError"
      using assms True w Inr g r2
      by (auto simp: finish_moving_def andthen_def lift_def dest: tolerance_check_error
               split: sum.splits prod.splits)
    with l1 l2 show ?thesis
      by (intro conjI exI[of _ "l1 @ l2"]) (auto simp: finishing_lines_def)
  qed
qed

lemma move_words_error: "move_words counts i axs = Inl e \<Longrightarrow> e \<noteq> RangeError"
proof (induction axs arbitrary: i e)
  case Nil
  then show ?case by simp
next
  case (Cons a axs)
  then show ?case by (auto simp: bindE_def nth_e_def split: sum.splits if_splits)
qed

lemma start_move_range_error:
  assumes "start_move mv relative c = (Inl RangeError, c')"
  shows "c' = c"
  using assms send_error[of _ False False c RangeError]
  by (auto simp: start_move_def andthen_def assert_def return_def raise_def lift_def Let_def
           dest: move_words_error split: if_splits sum.splits prod.splits)

lemma move_um_range_error_writes:
  assumes "move_um mv relative block c = Some (Inl RangeError, c')"
  shows "\<exists>ls. written c' = written c @ ls \<and> set ls \<subseteq> finishing_lines c"
proof -
  from assms obtain r1 c1 where f: "finish_moving c = Some (r1, c1)"
    by (cases "finish_moving c") (auto simp: move_um_def)
  note w1 = finish_moving_writes[OF f]
  from w1 assms f obtain u1 where r1: "r1 = Inr u1"
    by (cases r1) (auto simp: move_um_def)
  obtain r2 c2 where s: "start_move mv relative c1 = (r2, c2)" by force
  show ?thesis
  proof (cases r2)
    case (Inl e)
    with assms f r1 s have "e = RangeError" "c' = c2" by (auto simp: move_um_def)
    with s Inl start_move_range_error[of mv relative c1 c2] w1 show ?thesis by auto
  next
    case (Inr u2)
    with assms f r1 s have "block \<and> finish_moving c2 = Some (Inl RangeError, c')"
      by (auto simp: move_um_def split: if_splits)
    with finish_moving_writes[of c2 "Inl RangeError" c'] show ?thesis by simp
  qed
qed

lemma busy_stage_finish:
  "finish_moving busy_stage
     = Some (Inr (), busy_stage\<lparr>written := [''/'' @ [CR], ''W X Y'' @ [CR]], reads := 2,
                               position_um := [0, 0], moving := False\<rparr>)"
proof -
  have s1: "send ''/'' True False busy_stage = (Inr (Text ''N''), sent ''/'' busy_stage)"
    by (rule send_text)
       (simp_all add: busy_stage_def xy_stage_def script_def is_ascii_def strip_chars_def
          CR_def LF_def)
  have w: "wait_not_busy busy_stage = Some (Inr (), sent ''/'' busy_stage)"
    by (subst wait_not_busy.simps) (simp add: s1)
  let ?c1 = "sent ''/'' busy_stage"
  have s2: "send (''W '' @ py_join '' '' (axes ?c1)) True False ?c1
              = (Inr (Text ''0 0''), sent (''W '' @ py_join '' '' (axes ?c1)) ?c1)"
    by (rule send_text)
       (simp_all add: busy_stage_def xy_stage_def script_def is_ascii_def strip_chars_def
          CR_def LF_def sent_def py_join_def)
  have p: "counts2position (zip (py_split (py_strip strip_chars ''0 0'')) [10, 10]) = Inr [0, 0]"
    by (simp add: py_strip_def strip_chars_def CR_def LF_def py_split_def is_space_def
          py_float_def unsigned_def is_digit_def digits_val_def digit_val_def bindE_def)
  have e: "encoder_counts_per_um (sent c d) = encoder_counts_per_um d"
    "encoder_counts_per_um busy_stage = [10, 10]" for c d
    by (simp_all add: sent_def busy_stage_def xy_stage_def)
  have g: "get_position ?c1
             = (Inr [0, 0], (sent (''W '' @ py_join '' '' (axes ?c1)) ?c1)\<lparr>position_um := [0, 0]\<rparr>)"
    using s2 by (simp add: get_position_def andthen_def lift_def sent_simps e p)
  show ?thesis
    by (simp add: finish_moving_def w g andthen_def lift_def)
       (simp add: busy_stage_def xy_stage_def sent_def py_join_def nth_e_def bindE_def)
qed

lemma busy_stage_move:
  "move_um [Some 60000, None] True True busy_stage
     = Some (Inl RangeError,
             busy_stage\<lparr>written := [''/'' @ [CR], ''W X Y'' @ [CR]], reads := 2,
                          position_um := [0, 0], moving := False\<rparr>)"
proof -
  let ?c = "busy_stage\<lparr>written := [''/'' @ [CR], ''W X Y'' @ [CR]], reads := 2,
                          position_um := [0, 0], moving := False\<rparr>"
  have "\<exists>i<length [Some (60000::rat), None].
            \<not> in_range ?c (0 + i) (target ?c True (0 + i) ([Some 60000, None] ! i))"
    by (intro exI[of _ 0]) (simp add: in_range_def target_def busy_stage_def xy_stage_def)
  then have "resolve_move ?c True 0 [Some 60000, None] = Inl RangeError"
    by (rule resolve_move_out[rotated 3]) (simp_all add: busy_stage_def xy_stage_def)
  then have "start_move [Some 60000, None] True ?c = (Inl RangeError, ?c)"
    by (simp add: start_move_def andthen_def assert_def return_def lift_def busy_stage_def
          xy_stage_def)
  then show ?thesis
    by (simp add: move_um_def busy_stage_finish)
qed

lemma fmt_6f_25: "fmt_6f 25 = ''25.000000''"
  using fmt_6f_micro[of 25000000] by (simp add: show_simps)

lemma round_24_6: "py_round (246 / 10) = 25"
  by (rule py_round_near) simp

lemma accepted_acceleration:
  "set_acceleration [Some (246 / 10), Some 25] (echo_stage [25, 25])
     = (Inr (), (echo_stage [25, 25])
                  \<lparr>written := [''AC ACX=25.000000 ACY=25.000000 '' @ [CR], ''AC X? Y?'' @ [CR]],
                   reads := 2, acceleration_ms := [25, 25]\<rparr>)"
proof -
  let ?c = "echo_stage [25, 25]"
  have r: "map (\<lambda>x. of_int (py_round x)) [246 / 10, 25] = [25, 25::rat]"
    using round_24_6 py_round_of_int[of 25] by simp
  have "set_acceleration (map Some [246 / 10, 25]) ?c
          = (Inr (), (after_set ''AC '' ''AC'' (map (\<lambda>x. of_int (py_round x)) [246 / 10, 25]) ?c)
                        \<lparr>acceleration_ms := map (\<lambda>x. of_int (py_round x)) [246 / 10, 25]\<rparr>)"
  proof (rule set_acceleration_ok[OF echo_stage_props(1,2,3,5) _ echo_stage_props(6)])
    show "\<forall>j<length [246 / 10, 25::rat]. acceleration_ok ?c j ([246 / 10, 25] ! j)"
      using round_24_6 py_round_of_int[of 25]
      by (simp add: acceleration_ok_def echo_stage_def xy_stage_def less_Suc_eq_0_disj)
    show "replies ?c (Suc (reads ?c))
            = echo_reply (axes ?c) (map (\<lambda>x. of_int (py_round x)) [246 / 10, 25])"
      unfolding r by (simp add: echo_stage_def xy_stage_def script_def)
  qed
  then show ?thesis
    unfolding r
    by (simp add: after_set_def sent_def set_words_def py_join_def fmt_6f_25 echo_stage_def
          xy_stage_def)
qed

lemma half_set_fails:
  "set_pwm_state ''external'' half_set_stage
     = (Inl NoResponse,
        half_set_stage\<lparr>written := [''TTL X=10'' @ [CR], ''TTL X?'' @ [CR],
                                    ''TTL Y=0'' @ [CR], ''TTL Y?'' @ [CR]],
                        reads := 4, ttl_in_mode := Some ''toggle_ttl_out'',
                        ttl_out_mode := None\<rparr>)"
proof -
  let ?c1 = "after_ttl_in ''10'' ''toggle_ttl_out'' half_set_stage"
  have row: "map_of state_table ''external'' = Some (''toggle_ttl_out'', ''low'')"
    by (simp add: state_table_def)
  have i: "set_ttl_in_mode ''toggle_ttl_out'' half_set_stage = (Inr (), ?c1)"
    by (rule set_ttl_in_mode_ok)
       (simp_all add: half_set_stage_def xy_stage_def script_def mode2code_in_def clean_def
          text_reply_def is_ascii_def CR_def LF_def)
  have s: "send ''TTL Y=0'' False False ?c1 = (Inr NoReply, sent ''TTL Y=0'' ?c1)"
    by (rule send_noreply)
       (simp_all add: after_ttl_simps clean_def is_ascii_def half_set_stage_def
          xy_stage_def script_def)
  let ?c2 = "(sent ''TTL Y=0'' ?c1)\<lparr>ttl_out_mode := None\<rparr>"
  have g: "send ''TTL Y?'' True False ?c2 = (Inl NoResponse, sent ''TTL Y?'' ?c2)"
    by (simp add: send_def sent_def after_ttl_simps decode_def py_strip_def Let_def
          is_ascii_def half_set_stage_def xy_stage_def script_def)
  have o: "set_ttl_out_mode ''low'' ?c1 = (Inl NoResponse, sent ''TTL Y?'' ?c2)"
    using s g
    by (simp add: set_ttl_out_mode_def mode2code_out_def andthen_def get_ttl_out_mode_def)
  have "set_pwm_state ''external'' half_set_stage = (Inl NoResponse, sent ''TTL Y?'' ?c2)"
    unfolding set_pwm_state_row[OF row] using i o by (simp add: andthen_def)
  then show ?thesis
    by (simp add: sent_def after_ttl_in_def half_set_stage_def xy_stage_def)
qed

section \<open>The claims\<close>

text \<open>
  C2. Every parameter set operation is documented to take a tuple such as
  \<^verbatim>\<open>(2, 5, None)\<close>, an unspecified entry keeping the axis's current value. The type
  assertion in front of the loop refuses \<^verbatim>\<open>None\<close>, so the call ends there: nothing is
  resolved, nothing is written, and the controller is as it was.
\<close>

theorem set_operations_refuse_unspecified:
  "set_velocity [Some x, None] (xy_stage dev) = (Inl TypeCheckError, xy_stage dev)
   \<and> set_acceleration [Some x, None] (xy_stage dev) = (Inl TypeCheckError, xy_stage dev)
   \<and> set_settle_time [Some x, None] (xy_stage dev) = (Inl TypeCheckError, xy_stage dev)
   \<and> set_precision [Some x, None] (xy_stage dev) = (Inl TypeCheckError, xy_stage dev)"
  by (simp add: set_velocity_def set_acceleration_def set_settle_time_def set_precision_def
        andthen_def assert_def return_def raise_def xy_stage_def)

text \<open>
  C6. An answer to a query of the axes is split at blanks and each word at \<open>=\<close>. When
  \<open>send\<close> returns, it returns a tuple of values, one for each axis asked, and the
  \<open>i\<close>-th word of the answer is the \<open>i\<close>-th axis asked, \<open>=\<close>, and the text of the \<open>i\<close>-th
  value: the same axes in the same order. An answer whose words all parse but name other
  axes, or the same axes in another order, raises the assertion on the axes.
\<close>

theorem axis_values_only_for_the_axes_asked:
  assumes "send cmd True True c = (r, c')"
  shows "(\<forall>x. r = Inr x \<longrightarrow>
            (\<exists>vs. x = Values vs \<and> length vs = length (axes c)
               \<and> length (answer_words c) = length (axes c)
               \<and> (\<forall>i<length (axes c). \<exists>val.
                     answer_words c ! i = axes c ! i @ ''='' @ val \<and> py_float val = Inr (vs ! i))))
       \<and> (\<forall>as vs. is_open c \<and> list_all is_ascii cmd \<and> list_all is_ascii (line (replies c (reads c)))
             \<and> answer_words c \<noteq> [] \<and> parse_tokens (answer_words c) = Inr (as, vs) \<and> as \<noteq> axes c
             \<longrightarrow> r = Inl ProtocolError)"
proof (intro conjI allI impI)
  fix x assume "r = Inr x"
  with assms obtain as vs where p: "parse_tokens (answer_words c) = Inr (as, vs)"
      and a: "as = axes c" and x: "x = Values vs"
    by (auto simp: send_def decode_def answer_words_def bindE_def Let_def
             split: if_splits sum.splits prod.splits)
  from parse_tokens_shape[OF p] a x
  show "\<exists>vs. x = Values vs \<and> length vs = length (axes c)
               \<and> length (answer_words c) = length (axes c)
               \<and> (\<forall>i<length (axes c). \<exists>val.
                     answer_words c ! i = axes c ! i @ ''='' @ val \<and> py_float val = Inr (vs ! i))"
    by auto
next
  fix as vs
  assume h: "is_open c \<and> list_all is_ascii cmd \<and> list_all is_ascii (line (replies c (reads c)))
             \<and> answer_words c \<noteq> [] \<and> parse_tokens (answer_words c) = Inr (as, vs) \<and> as \<noteq> axes c"
  then have "py_strip strip_chars (line (replies c (reads c))) \<noteq> []"
    by (auto simp: answer_words_def py_split_def)
  with h assms show "r = Inl ProtocolError"
    by (auto simp: send_def decode_def answer_words_def bindE_def Let_def)
qed

text \<open>
  The answer \<^verbatim>\<open>X=1.000000 Y=2.000000\<close> to the axes \<^verbatim>\<open>('Y','X')\<close>.
\<close>

theorem axis_values_only_for_the_axes_asked_witness:
  "fst (send ''S Y? X?'' True True yx_stage) = Inl ProtocolError"
proof -
  obtain r c' where s: "send ''S Y? X?'' True True yx_stage = (r, c')" by force
  have h: "is_open yx_stage \<and> list_all is_ascii ''S Y? X?''
           \<and> list_all is_ascii (line (replies yx_stage (reads yx_stage)))
           \<and> answer_words yx_stage \<noteq> []
           \<and> parse_tokens (answer_words yx_stage) = Inr ([''X'', ''Y''], [1, 2])
           \<and> [''X'', ''Y''] \<noteq> axes yx_stage"
    unfolding yx_words yx_parse
    by (simp add: yx_stage_def xy_stage_def script_def text_reply_def is_ascii_def CR_def LF_def)
  from axis_values_only_for_the_axes_asked[OF s] h have "r = Inl ProtocolError" by blast
  with s show ?thesis by simp
qed

text \<open>
  C4. For each of the four named states, with the row \<open>(m_in, m_out)\<close> of the table:
  when \<open>set_pwm_state\<close> returns, it has written the input register and queried it, then
  written the output register and queried it, in this order and nothing else; the modes
  the device reported are the row's, and the state recorded is the name. With a device
  that reports the codes it was sent the call does return, and querying the two registers
  again gives the row.
\<close>

theorem set_pwm_state_follows_the_table:
  assumes "map_of state_table name = Some (m_in, m_out)"
  shows "\<exists>c_in c_out.
           map_of mode2code_in m_in = Some c_in \<and> map_of mode2code_out m_out = Some c_out
         \<and> (\<forall>u c'. set_pwm_state name c = (Inr u, c') \<longrightarrow>
               written c' = written c @ [''TTL X='' @ c_in @ [CR], ''TTL X?'' @ [CR],
                                         ''TTL Y='' @ c_out @ [CR], ''TTL Y?'' @ [CR]]
             \<and> ttl_in_mode c' = Some m_in \<and> ttl_out_mode c' = Some m_out
             \<and> state c' = Some name)
         \<and> (is_open c
               \<and> clean (replies c (reads c))
               \<and> replies c (reads c + 1) = text_reply (''X='' @ c_in)
               \<and> clean (replies c (reads c + 2))
               \<and> replies c (reads c + 3) = text_reply (''Y='' @ c_out)
               \<and> replies c (reads c + 4) = text_reply (''X='' @ c_in)
               \<and> replies c (reads c + 5) = text_reply (''Y='' @ c_out)
             \<longrightarrow> fst (set_pwm_state name c) = Inr ()
               \<and> fst (get_ttl_in_mode (snd (set_pwm_state name c))) = Inr m_in
               \<and> fst (get_ttl_out_mode (snd (get_ttl_in_mode (snd (set_pwm_state name c)))))
                     = Inr m_out)"
proof -
  from assms obtain c_in c_out
    where ci: "map_of mode2code_in m_in = Some c_in"
      and co: "map_of mode2code_out m_out = Some c_out"
    by (auto simp: state_table_def mode2code_in_def mode2code_out_def split: if_splits)
  have inv: "map_of code2mode_in c_in = Some m_in" "map_of code2mode_out c_out = Some m_out"
    using ci co
    by (auto simp: mode2code_in_def mode2code_out_def code2mode_in_def code2mode_out_def
             split: if_splits)
  let ?c' = "(after_ttl_out c_out m_out (after_ttl_in c_in m_in c))\<lparr>state := Some name\<rparr>"
  have a: "written c' = written c @ [''TTL X='' @ c_in @ [CR], ''TTL X?'' @ [CR],
                                         ''TTL Y='' @ c_out @ [CR], ''TTL Y?'' @ [CR]]
             \<and> ttl_in_mode c' = Some m_in \<and> ttl_out_mode c' = Some m_out
             \<and> state c' = Some name"
    if "set_pwm_state name c = (Inr u, c')" for u c'
    using set_pwm_state_Inr[OF assms that] ci co by (auto simp: after_ttl_simps)
  have b: "fst (set_pwm_state name c) = Inr ()
               \<and> fst (get_ttl_in_mode (snd (set_pwm_state name c))) = Inr m_in
               \<and> fst (get_ttl_out_mode (snd (get_ttl_in_mode (snd (set_pwm_state name c)))))
                     = Inr m_out"
    if h: "is_open c
               \<and> clean (replies c (reads c))
               \<and> replies c (reads c + 1) = text_reply (''X='' @ c_in)
               \<and> clean (replies c (reads c + 2))
               \<and> replies c (reads c + 3) = text_reply (''Y='' @ c_out)
               \<and> replies c (reads c + 4) = text_reply (''X='' @ c_in)
               \<and> replies c (reads c + 5) = text_reply (''Y='' @ c_out)"
  proof -
    have s: "set_pwm_state name c = (Inr (), ?c')"
      using h by (intro set_pwm_state_ok[OF assms ci co]) simp_all
    have g1: "get_ttl_in_mode ?c' = (Inr m_in, (sent ''TTL X?'' ?c')\<lparr>ttl_in_mode := Some m_in\<rparr>)"
      using h inv(1) by (intro get_ttl_in_mode_ok) (simp_all add: after_ttl_simps eval_nat_numeral)
    have g2: "get_ttl_out_mode ((sent ''TTL X?'' ?c')\<lparr>ttl_in_mode := Some m_in\<rparr>)
                = (Inr m_out, (sent ''TTL Y?'' ((sent ''TTL X?'' ?c')\<lparr>ttl_in_mode := Some m_in\<rparr>))
                                \<lparr>ttl_out_mode := Some m_out\<rparr>)"
      using h inv(2)
      by (intro get_ttl_out_mode_ok) (simp_all add: after_ttl_simps sent_simps eval_nat_numeral)
    show ?thesis by (simp add: s g1 g2)
  qed
  from ci co a b show ?thesis by blast
qed

text \<open>
  The state \<^verbatim>\<open>external\<close>, on a device that takes the codes 10 and 0.
\<close>

theorem set_pwm_state_follows_the_table_witness:
  "fst (set_pwm_state ''external'' (xy_stage (ttl_device ''10'' ''0''))) = Inr ()
   \<and> ttl_in_mode (snd (set_pwm_state ''external'' (xy_stage (ttl_device ''10'' ''0''))))
       = Some ''toggle_ttl_out''
   \<and> ttl_out_mode (snd (set_pwm_state ''external'' (xy_stage (ttl_device ''10'' ''0''))))
       = Some ''low''
   \<and> fst (get_ttl_in_mode (snd (set_pwm_state ''external'' (xy_stage (ttl_device ''10'' ''0'')))))
       = Inr ''toggle_ttl_out''"
proof -
  let ?c = "xy_stage (ttl_device ''10'' ''0'')"
  have row: "map_of state_table ''external'' = Some (''toggle_ttl_out'', ''low'')"
    by (simp add: state_table_def)
  have dev: "is_open ?c
               \<and> clean (replies ?c (reads ?c))
               \<and> replies ?c (reads ?c + 1) = text_reply (''X='' @ ''10'')
               \<and> clean (replies ?c (reads ?c + 2))
               \<and> replies ?c (reads ?c + 3) = text_reply (''Y='' @ ''0'')
               \<and> replies ?c (reads ?c + 4) = text_reply (''X='' @ ''10'')
               \<and> replies ?c (reads ?c + 5) = text_reply (''Y='' @ ''0'')"
    by (simp add: xy_stage_def ttl_device_def script_def clean_def text_reply_def is_ascii_def
          CR_def LF_def)
  from set_pwm_state_follows_the_table[OF row, of ?c] obtain c_in c_out where
      codes: "map_of mode2code_in ''toggle_ttl_out'' = Some c_in"
             "map_of mode2code_out ''low'' = Some c_out"
      and a: "\<And>u c'. set_pwm_state ''external'' ?c = (Inr u, c') \<Longrightarrow>
                ttl_in_mode c' = Some ''toggle_ttl_out'' \<and> ttl_out_mode c' = Some ''low''"
      and b: "is_open ?c
               \<and> clean (replies ?c (reads ?c))
               \<and> replies ?c (reads ?c + 1) = text_reply (''X='' @ c_in)
               \<and> clean (replies ?c (reads ?c + 2))
               \<and> replies ?c (reads ?c + 3) = text_reply (''Y='' @ c_out)
               \<and> replies ?c (reads ?c + 4) = text_reply (''X='' @ c_in)
               \<and> replies ?c (reads ?c + 5) = text_reply (''Y='' @ c_out)
             \<Longrightarrow> fst (set_pwm_state ''external'' ?c) = Inr ()
               \<and> fst (get_ttl_in_mode (snd (set_pwm_state ''external'' ?c))) = Inr ''toggle_ttl_out''"
    by blast
  from codes have c: "c_in = ''10''" "c_out = ''0''"
    by (simp_all add: mode2code_in_def mode2code_out_def)
  from b dev have ok: "fst (set_pwm_state ''external'' ?c) = Inr ()"
    and q: "fst (get_ttl_in_mode (snd (set_pwm_state ''external'' ?c))) = Inr ''toggle_ttl_out''"
    unfolding c by blast+
  from ok have "set_pwm_state ''external'' ?c = (Inr (), snd (set_pwm_state ''external'' ?c))"
    by (metis prod.collapse)
  from a[OF this] ok q show ?thesis by simp
qed

text \<open>
  C5, as stated, fails for the state \<^verbatim>\<open>off\<close>. \<open>set_pwm_state\<close> records the state only when
  both registers are set and verified: with \<^verbatim>\<open>off\<close> recorded, a call for \<^verbatim>\<open>external\<close> that
  sets the input register and then gets no answer raises, and leaves \<^verbatim>\<open>off\<close> recorded over
  an input register in \<^verbatim>\<open>toggle_ttl_out\<close>. \<open>close\<close> then finds the state \<^verbatim>\<open>off\<close>, writes
  nothing and returns.
\<close>

theorem close_leaves_the_registers_off_counterexample:
  "fst (set_pwm_state ''external'' half_set_stage) = Inl NoResponse
   \<and> state (snd (set_pwm_state ''external'' half_set_stage)) = Some ''off''
   \<and> fst (close (snd (set_pwm_state ''external'' half_set_stage))) = Inr ()
   \<and> ttl_in_mode (snd (close (snd (set_pwm_state ''external'' half_set_stage))))
       = Some ''toggle_ttl_out''
   \<and> ttl_out_mode (snd (close (snd (set_pwm_state ''external'' half_set_stage)))) = None
   \<and> written (snd (close (snd (set_pwm_state ''external'' half_set_stage))))
       = written (snd (set_pwm_state ''external'' half_set_stage))"
  unfolding half_set_fails
  by (simp add: close_def andthen_def return_def half_set_stage_def xy_stage_def)

text \<open>
  C5, amended. When \<open>close\<close> has returned the port is closed. For every state recorded
  before other than \<^verbatim>\<open>off\<close> (none, after \<^verbatim>\<open>__init__\<close>, is one), \<open>close\<close> has set the state
  \<^verbatim>\<open>off\<close> on the port while it was open: it has written and queried the input register,
  then the output register, the device has reported \<^verbatim>\<open>disabled\<close> and \<^verbatim>\<open>low\<close>, and \<^verbatim>\<open>off\<close>
  is recorded. With \<^verbatim>\<open>off\<close> recorded before, \<open>close\<close> writes nothing: the controller is as
  it was but for the closed port.
\<close>

theorem close_sets_off_unless_recorded:
  assumes "close c = (Inr u, c')"
  shows "\<not> is_open c'
       \<and> (state c \<noteq> Some ''off'' \<longrightarrow>
            is_open c
          \<and> written c' = written c @ [''TTL X=0'' @ [CR], ''TTL X?'' @ [CR],
                                      ''TTL Y=0'' @ [CR], ''TTL Y?'' @ [CR]]
          \<and> ttl_in_mode c' = Some ''disabled'' \<and> ttl_out_mode c' = Some ''low''
          \<and> state c' = Some ''off'')
       \<and> (state c = Some ''off'' \<longrightarrow> c' = c\<lparr>is_open := False\<rparr>)"
proof (cases "state c = Some ''off''")
  case True
  with assms have "c' = c\<lparr>is_open := False\<rparr>"
    by (simp add: close_def andthen_def return_def)
  with True show ?thesis by simp
next
  case False
  with assms obtain u1 c1 where s: "set_pwm_state ''off'' c = (Inr u1, c1)"
      and c': "c' = c1\<lparr>is_open := False\<rparr>"
    by (auto simp: close_def andthen_def split: prod.splits sum.splits)
  from set_pwm_state_Inr[OF off_row s] off_codes
  have c1: "c1 = (after_ttl_out ''0'' ''low'' (after_ttl_in ''0'' ''disabled'' c))\<lparr>state := Some ''off''\<rparr>"
    by simp
  from set_pwm_state_Inr_open[OF off_row s] False show ?thesis
    unfolding c' c1 by (simp add: after_ttl_simps)
qed

text \<open>
  Closing the controller that \<^verbatim>\<open>__init__\<close> returned, no state set yet, on a device that
  takes the codes 0 and 0; and closing it with the state \<^verbatim>\<open>off\<close> recorded, on a device that
  answers nothing.
\<close>

theorem close_sets_off_unless_recorded_witness:
  "fst (close (xy_stage (ttl_device ''0'' ''0''))) = Inr ()
   \<and> state (xy_stage (ttl_device ''0'' ''0'')) \<noteq> Some ''off''
   \<and> written (snd (close (xy_stage (ttl_device ''0'' ''0''))))
       = [''TTL X=0'' @ [CR], ''TTL X?'' @ [CR], ''TTL Y=0'' @ [CR], ''TTL Y?'' @ [CR]]
   \<and> ttl_in_mode (snd (close (xy_stage (ttl_device ''0'' ''0'')))) = Some ''disabled''
   \<and> ttl_out_mode (snd (close (xy_stage (ttl_device ''0'' ''0'')))) = Some ''low''
   \<and> state (snd (close (xy_stage (ttl_device ''0'' ''0'')))) = Some ''off''
   \<and> \<not> is_open (snd (close (xy_stage (ttl_device ''0'' ''0''))))
   \<and> snd (close ((xy_stage (script []))\<lparr>state := Some ''off''\<rparr>))
       = (xy_stage (script []))\<lparr>state := Some ''off'', is_open := False\<rparr>"
proof -
  let ?c = "xy_stage (ttl_device ''0'' ''0'')"
  have s: "set_pwm_state ''off'' ?c
             = (Inr (), (after_ttl_out ''0'' ''low'' (after_ttl_in ''0'' ''disabled'' ?c))
                           \<lparr>state := Some ''off''\<rparr>)"
    by (rule set_pwm_state_ok[OF off_row off_codes])
       (simp_all add: xy_stage_def ttl_device_def script_def clean_def text_reply_def
          is_ascii_def CR_def LF_def)
  have st: "state ?c \<noteq> Some ''off''" by (simp add: xy_stage_def)
  have w: "written ?c = []" by (simp add: xy_stage_def)
  have ok: "fst (close ?c) = Inr ()"
    using s st by (simp add: close_def andthen_def)
  then have run: "close ?c = (Inr (), snd (close ?c))" by (metis prod.collapse)
  let ?d = "(xy_stage (script []))\<lparr>state := Some ''off''\<rparr>"
  have run': "close ?d = (Inr (), snd (close ?d))"
    by (simp add: close_def andthen_def return_def)
  have st': "state ?d = Some ''off''" by simp
  from close_sets_off_unless_recorded[OF run] close_sets_off_unless_recorded[OF run']
    ok st st' w
  show ?thesis by simp
qed

text \<open>
  C7. \<open>set_pwm_intensity\<close> of an integer below 1 or above 99 raises the range assertion
  and leaves the controller, and so the lines written, as they were. An integer from 1 to
  99 is written as \<^verbatim>\<open>LED X=v\<close> and queried; with a device that reports the value it was
  sent the call returns, and \<open>get_pwm_intensity\<close> after it returns the value.
\<close>

theorem set_pwm_intensity_accepts_1_to_99:
  "(v < 1 \<or> 99 < v \<longrightarrow> set_pwm_intensity (of_int v) c = (Inl RangeError, c))
   \<and> (1 \<le> v \<and> v \<le> 99 \<and> is_open c \<and> clean (replies c (reads c))
        \<and> replies c (reads c + 1) = pwm_reply v \<and> replies c (reads c + 2) = pwm_reply v
      \<longrightarrow> fst (set_pwm_intensity (of_int v) c) = Inr ()
        \<and> written (snd (set_pwm_intensity (of_int v) c))
            = written c @ [''LED X='' @ fmt_d v @ [CR], ''LED X?'' @ [CR]]
        \<and> fst (get_pwm_intensity (snd (set_pwm_intensity (of_int v) c))) = Inr v)"
proof -
  have refused: "set_pwm_intensity (of_int v) c = (Inl RangeError, c)" if "v < 1 \<or> 99 < v"
    using that by (rule set_pwm_intensity_refused)
  have accepted: "fst (set_pwm_intensity (of_int v) c) = Inr ()
        \<and> written (snd (set_pwm_intensity (of_int v) c))
            = written c @ [''LED X='' @ fmt_d v @ [CR], ''LED X?'' @ [CR]]
        \<and> fst (get_pwm_intensity (snd (set_pwm_intensity (of_int v) c))) = Inr v"
    if h: "1 \<le> v \<and> v \<le> 99 \<and> is_open c \<and> clean (replies c (reads c))
        \<and> replies c (reads c + 1) = pwm_reply v \<and> replies c (reads c + 2) = pwm_reply v"
  proof -
    let ?c' = "(sent ''LED X?'' (sent (''LED X='' @ fmt_d v) c))\<lparr>pwm_intensity := v\<rparr>"
    have s: "set_pwm_intensity (of_int v) c = (Inr (), ?c')"
      using h by (intro set_pwm_intensity_ok) simp_all
    obtain n where v: "v = int n" using h by (metis nonneg_int_cases order_trans zero_le_one)
    have "get_pwm_intensity ?c' = (Inr (int n), (sent ''LED X?'' ?c')\<lparr>pwm_intensity := int n\<rparr>)"
      using h by (intro get_pwm_intensity_ok) (simp_all add: sent_simps v eval_nat_numeral)
    then have g: "fst (get_pwm_intensity ?c') = Inr v" by (simp add: v)
    show ?thesis unfolding s using g by (simp add: sent_simps)
  qed
  from refused accepted show ?thesis by blast
qed

text \<open>
  The values 150 and 50 of the specification's example.
\<close>

theorem set_pwm_intensity_accepts_1_to_99_witness:
  "set_pwm_intensity 150 (xy_stage (script [])) = (Inl RangeError, xy_stage (script []))
   \<and> written (xy_stage (script [])) = []
   \<and> fst (set_pwm_intensity 50 (xy_stage (script [text_reply [], pwm_reply 50, pwm_reply 50])))
       = Inr ()
   \<and> written (snd (set_pwm_intensity 50
         (xy_stage (script [text_reply [], pwm_reply 50, pwm_reply 50]))))
       = [''LED X=50'' @ [CR], ''LED X?'' @ [CR]]
   \<and> fst (get_pwm_intensity (snd (set_pwm_intensity 50
         (xy_stage (script [text_reply [], pwm_reply 50, pwm_reply 50])))))
       = Inr 50"
proof -
  let ?c = "xy_stage (script [text_reply [], pwm_reply 50, pwm_reply 50])"
  have f: "fmt_d 50 = ''50''" by (simp add: fmt_d_def show_simps)
  have h: "1 \<le> (50::int) \<and> (50::int) \<le> 99 \<and> is_open ?c \<and> clean (replies ?c (reads ?c))
        \<and> replies ?c (reads ?c + 1) = pwm_reply 50 \<and> replies ?c (reads ?c + 2) = pwm_reply 50"
    by (simp add: xy_stage_def script_def clean_def text_reply_def is_ascii_def CR_def LF_def)
  have w: "written ?c = []" "written (xy_stage (script [])) = []" by (simp_all add: xy_stage_def)
  from set_pwm_intensity_accepts_1_to_99[of 150 "xy_stage (script [])"]
       set_pwm_intensity_accepts_1_to_99[of 50 ?c] h w f
  show ?thesis by simp
qed

text \<open>
  C10. A controller that is not moving, and a move with a target outside the range of its
  axis: \<open>move_um\<close> raises the range assertion, and the controller it leaves is the
  controller it found: not moving, the position, the recorded target and every other
  attribute as before, and nothing written.
\<close>

theorem rejected_move_leaves_the_controller:
  assumes "\<not> moving c" "length mv = length (axes c)" "sized c"
      and "\<exists>i<length mv. \<not> in_range c i (target c relative i (mv ! i))"
  shows "\<exists>c'. move_um mv relative block c = Some (Inl RangeError, c') \<and> c' = c
           \<and> \<not> moving c' \<and> position_um c' = position_um c
           \<and> target_move_um c' = target_move_um c \<and> written c' = written c"
  using move_um_out_of_range[OF assms] assms(1) by simp

text \<open>
  The stage of \<^verbatim>\<open>__main__\<close> at the origin, asked to move X by 60 mm: its range ends at
  50 mm.
\<close>

theorem rejected_move_leaves_the_controller_witness:
  "move_um [Some 60000, None] True True (xy_stage (script []))
     = Some (Inl RangeError, xy_stage (script []))"
proof -
  let ?c = "xy_stage (script [])"
  have 1: "\<not> moving ?c" "length [Some (60000::rat), None] = length (axes ?c)" "sized ?c"
    by (simp_all add: xy_stage_def sized_def)
  have "\<not> in_range ?c 0 (target ?c True 0 ([Some 60000, None] ! 0))"
    by (simp add: in_range_def target_def xy_stage_def)
  then have 2: "\<exists>i<length [Some (60000::rat), None].
                  \<not> in_range ?c i (target ?c True i ([Some 60000, None] ! i))"
    by (intro exI[of _ 0]) simp
  from rejected_move_leaves_the_controller[OF 1 2, of True] show ?thesis by auto
qed

text \<open>
  C9. When a relative \<open>move_um\<close> has returned, the absolute targets it computed are, for
  an unspecified entry, the position of the axis as it was when the targets were computed
  (after the wait for a move still under way, if any), and for a number that position
  plus the number: the position is added once to a number and never to an unspecified
  entry. The target recorded is the computed one rounded to three decimals.
\<close>

theorem unspecified_entry_is_the_current_position:
  assumes "move_um mv True block c = Some (Inr u, c')"
  shows "\<exists>c1 ts. finish_moving c = Some (Inr (), c1) \<and> (\<not> moving c \<longrightarrow> c1 = c)
           \<and> resolve_move c1 True 0 mv = Inr ts \<and> length ts = length mv
           \<and> target_move_um c' = map (py_round_to 3) ts
           \<and> (\<forall>i<length mv.
                 (mv ! i = None \<longrightarrow> ts ! i = position_um c1 ! i)
               \<and> (\<forall>d. mv ! i = Some d \<longrightarrow> ts ! i = position_um c1 ! i + d))"
proof -
  from assms obtain c1 where f: "finish_moving c = Some (Inr (), c1)"
    by (auto simp: move_um_def split: option.splits sum.splits prod.splits)
  from assms f obtain u2 c2 where s: "start_move mv True c1 = (Inr u2, c2)"
      and e: "c' = c2 \<or> (\<exists>r. finish_moving c2 = Some (r, c'))"
    by (auto simp: move_um_def split: sum.splits prod.splits if_splits)
  from start_move_Inr[OF s] obtain ts where ts: "resolve_move c1 True 0 mv = Inr ts"
      and t2: "target_move_um c2 = map (py_round_to 3) ts" by blast
  from e have "target_move_um c' = target_move_um c2"
    by (auto dest: finish_moving_frame motion_frame_fields(1))
  with t2 have t: "target_move_um c' = map (py_round_to 3) ts" by simp
  have idle: "\<not> moving c \<longrightarrow> c1 = c" using f by (auto simp: finish_moving_def)
  from resolve_move_Inr[OF ts] have
    "length ts = length mv"
    "\<forall>i<length mv. (mv ! i = None \<longrightarrow> ts ! i = position_um c1 ! i)
               \<and> (\<forall>d. mv ! i = Some d \<longrightarrow> ts ! i = position_um c1 ! i + d)"
    by (auto simp: target_def)
  with f idle ts t show ?thesis by blast
qed

text \<open>
  The stage at X = 100, Y = 250, moved by 2000 in X, Y unspecified, without waiting.
\<close>

theorem unspecified_entry_is_the_current_position_witness:
  "\<exists>c'. move_um [Some 2000, None] True False moved_stage = Some (Inr (), c')
        \<and> target_move_um c' = [2100, 250]"
proof -
  from start_move_ok[OF moved_stage_props(1,2,3,4) moved_stage_resolve moved_stage_props(5)]
  obtain c' where s: "start_move [Some 2000, None] True moved_stage = (Inr (), c')" by blast
  then have m: "move_um [Some 2000, None] True False moved_stage = Some (Inr (), c')"
    by (simp add: move_um_def finish_moving_idle[OF moved_stage_props(6)])
  from unspecified_entry_is_the_current_position[OF m] moved_stage_props(6)
  obtain ts where ts: "resolve_move moved_stage True 0 [Some 2000, None] = Inr ts"
      and t: "target_move_um c' = map (py_round_to 3) ts" by auto
  from ts have "ts = [2100, 250]" unfolding moved_stage_resolve by simp
  moreover have "py_round_to 3 2100 = 2100" "py_round_to 3 250 = 250"
    using py_round_to_of_int[of 3 2100] py_round_to_of_int[of 3 250] by simp_all
  ultimately have "target_move_um c' = [2100, 250]" using t by simp
  with m show ?thesis by blast
qed

text \<open>
  C8. The precision is named in micrometres by the controller and in millimetres on the
  wire. \<open>set_precision\<close> of 1 (um) on both axes writes \<^verbatim>\<open>0.000001\<close> for each: the number
  times \<^verbatim>\<open>1e-6\<close>, where a micrometre in millimetres is \<^verbatim>\<open>0.001000\<close>. \<open>get_precision\<close>
  of a device that reports \<^verbatim>\<open>0.001000\<close> (mm) returns 1000 (um), not 1.
\<close>

theorem precision_is_scaled_by_a_million:
  "set_precision [Some 1, Some 1]
     (xy_stage (script [text_reply [], echo_reply [''X'', ''Y''] [1 / 10 ^ 6, 1 / 10 ^ 6]]))
   = (Inr (),
      (xy_stage (script [text_reply [], echo_reply [''X'', ''Y''] [1 / 10 ^ 6, 1 / 10 ^ 6]]))
        \<lparr>written := [''PC PCX=0.000001 PCY=0.000001 '' @ [CR], ''PC X? Y?'' @ [CR]],
         reads := 2, precision_um := [1, 1]\<rparr>)
   \<and> fst (get_precision (xy_stage (script [echo_reply [''X'', ''Y''] [1 / 1000, 1 / 1000]])))
       = Inr [1000, 1000]"
proof -
  let ?c = "xy_stage (script [text_reply [], echo_reply [''X'', ''Y''] [1 / 10 ^ 6, 1 / 10 ^ 6]])"
  have "set_precision (map Some [1, 1]) ?c
           = (Inr (), (after_set ''PC '' ''PC'' (map (\<lambda>x. of_int (py_round x) / 10 ^ 6) [1, 1]) ?c)
                        \<lparr>precision_um := map py_round [1, 1]\<rparr>)"
    using py_round_of_int[of 1]
    by (intro set_precision_ok)
       (simp_all add: xy_stage_def valid_axes_def sized_def precision_ok_def script_def
          clean_def text_reply_def is_ascii_def CR_def LF_def less_Suc_eq_0_disj)
  then have 1: "set_precision [Some 1, Some 1] ?c
           = (Inr (), ?c\<lparr>written := [''PC PCX=0.000001 PCY=0.000001 '' @ [CR], ''PC X? Y?'' @ [CR]],
                          reads := 2, precision_um := [1, 1]\<rparr>)"
    using py_round_of_int[of 1]
    by (simp add: after_set_def sent_def set_words_def fmt_6f_micro_one py_join_def xy_stage_def)
  let ?d = "xy_stage (script [echo_reply [''X'', ''Y''] [1 / 1000, 1 / 1000]])"
  have six: "six_decimals (1 / 1000)"
    using six_decimals_of_micro[of 1000] by simp
  have "query ''PC '' ?d = (Inr [1 / 1000, 1 / 1000], sent (''PC '' @ py_join ''? '' (axes ?d) @ ''?'') ?d)"
    using six
    by (intro query_echo)
       (simp_all add: xy_stage_def script_def axis_word_def strip_chars_def is_space_def
          is_ascii_def CR_def LF_def)
  moreover have "py_round (10 ^ 6 * (1 / 1000)) = 1000"
    using py_round_of_int[of 1000] by simp
  ultimately have 2: "fst (get_precision ?d) = Inr [1000, 1000]"
    by (simp add: get_precision_def andthen_def Let_def)
  from 1 2 show ?thesis by simp
qed

text \<open>
  C1. A controller as \<^verbatim>\<open>__init__\<close> builds it, and a tuple of numbers, one for each axis,
  all within the bounds of the parameter. The set operation writes two lines, the command
  that carries the tuple as it was rounded (to six decimals for the velocity, to integers
  for the acceleration and the settle time, to integers divided by a million for the
  precision)
  and the query of the parameter. With a device that reports the values of that command,
  the set operation returns, it records the rounded tuple in the attribute, and the get
  operation after it returns the rounded tuple. For the settle time the device may report
  any values within 1 ms of the rounded ones: the command written is the same, and the
  attribute and the get operation give what the device reports.
\<close>

theorem set_then_get_returns_the_tuple:
  assumes "is_open c" "valid_axes (axes c)" "sized c" "built c"
      and "length xs = length (axes c)" "clean (replies c (reads c))"
  shows
    "(in_bounds (replicate (length xs) 0) xs (max_velocity_mmps c)
        \<and> reports c (map (py_round_to 6) xs)
      \<longrightarrow> fst (set_velocity (map Some xs) c) = Inr ()
        \<and> written (snd (set_velocity (map Some xs) c))
            = written c @ [concat (''S '' # set_words ''V'' (axes c) (map (py_round_to 6) xs)) @ [CR],
                           (''S '' @ py_join ''? '' (axes c) @ ''?'') @ [CR]]
        \<and> velocity_mmps (snd (set_velocity (map Some xs) c)) = map (py_round_to 6) xs
        \<and> fst (get_velocity (snd (set_velocity (map Some xs) c))) = Inr (map (py_round_to 6) xs))
   \<and> (in_bounds (min_acceleration_ms c) xs (max_acceleration_ms c)
        \<and> reports c (map (\<lambda>x. of_int (py_round x)) xs)
      \<longrightarrow> fst (set_acceleration (map Some xs) c) = Inr ()
        \<and> written (snd (set_acceleration (map Some xs) c))
            = written c @ [concat (''AC '' # set_words ''AC'' (axes c)
                                              (map (\<lambda>x. of_int (py_round x)) xs)) @ [CR],
                           (''AC '' @ py_join ''? '' (axes c) @ ''?'') @ [CR]]
        \<and> acceleration_ms (snd (set_acceleration (map Some xs) c))
            = map (\<lambda>x. of_int (py_round x)) xs
        \<and> fst (get_acceleration (snd (set_acceleration (map Some xs) c)))
            = Inr (map (\<lambda>x. of_int (py_round x)) xs))
   \<and> (in_bounds (min_precision_um c) xs (max_precision_um c)
        \<and> reports c (map (\<lambda>x. of_int (py_round x) / 10 ^ 6) xs)
      \<longrightarrow> fst (set_precision (map Some xs) c) = Inr ()
        \<and> written (snd (set_precision (map Some xs) c))
            = written c @ [concat (''PC '' # set_words ''PC'' (axes c)
                                              (map (\<lambda>x. of_int (py_round x) / 10 ^ 6) xs)) @ [CR],
                           (''PC '' @ py_join ''? '' (axes c) @ ''?'') @ [CR]]
        \<and> precision_um (snd (set_precision (map Some xs) c)) = map py_round xs
        \<and> fst (get_precision (snd (set_precision (map Some xs) c))) = Inr (map py_round xs))
   \<and> (\<forall>rs. in_bounds (replicate (length xs) 0) xs (max_settle_time_ms c)
        \<and> reports c rs \<and> length rs = length xs
        \<and> (\<forall>i<length xs. six_decimals (rs ! i) \<and> \<bar>rs ! i - of_int (py_round (xs ! i))\<bar> \<le> 1)
      \<longrightarrow> fst (set_settle_time (map Some xs) c) = Inr ()
        \<and> written (snd (set_settle_time (map Some xs) c))
            = written c @ [concat (''WT '' # set_words ''WT'' (axes c)
                                              (map (\<lambda>x. of_int (py_round x)) xs)) @ [CR],
                           (''WT '' @ py_join ''? '' (axes c) @ ''?'') @ [CR]]
        \<and> settle_time_ms (snd (set_settle_time (map Some xs) c)) = rs
        \<and> fst (get_settle_time (snd (set_settle_time (map Some xs) c))) = Inr rs)"
proof -
  note vz = valid_sized[OF assms(2,3,5)]
  note b = assms(4)[unfolded built_def Let_def]
  have n: "length xs = length (axes c)" by (rule assms(5))
  have vel: "fst (set_velocity (map Some xs) c) = Inr ()
        \<and> written (snd (set_velocity (map Some xs) c))
            = written c @ [concat (''S '' # set_words ''V'' (axes c) (map (py_round_to 6) xs)) @ [CR],
                           (''S '' @ py_join ''? '' (axes c) @ ''?'') @ [CR]]
        \<and> velocity_mmps (snd (set_velocity (map Some xs) c)) = map (py_round_to 6) xs
        \<and> fst (get_velocity (snd (set_velocity (map Some xs) c))) = Inr (map (py_round_to 6) xs)"
    if h: "in_bounds (replicate (length xs) 0) xs (max_velocity_mmps c)
        \<and> reports c (map (py_round_to 6) xs)"
  proof -
    let ?vs = "map (py_round_to 6) xs"
    have ok: "\<forall>j<length xs. velocity_ok c j (xs ! j)"
      using h by (simp add: in_bounds_def velocity_ok_def)
    have s: "set_velocity (map Some xs) c
               = (Inr (), (after_set ''S '' ''V'' ?vs c)\<lparr>velocity_mmps := ?vs\<rparr>)"
      using h by (intro set_velocity_ok assms ok) (simp add: reports_def)
    have "fst (query ''S '' ((after_set ''S '' ''V'' ?vs c)\<lparr>velocity_mmps := ?vs\<rparr>)) = Inr ?vs"
      using h n
      by (intro query_after[of c] assms vz)
         (simp_all add: reports_def after_set_simps six_decimals_round is_ascii_def)
    then show ?thesis
      unfolding s get_velocity_def by (simp add: fst_andthen_query after_set_simps)
  qed
  have acc: "fst (set_acceleration (map Some xs) c) = Inr ()
        \<and> written (snd (set_acceleration (map Some xs) c))
            = written c @ [concat (''AC '' # set_words ''AC'' (axes c)
                                              (map (\<lambda>x. of_int (py_round x)) xs)) @ [CR],
                           (''AC '' @ py_join ''? '' (axes c) @ ''?'') @ [CR]]
        \<and> acceleration_ms (snd (set_acceleration (map Some xs) c))
            = map (\<lambda>x. of_int (py_round x)) xs
        \<and> fst (get_acceleration (snd (set_acceleration (map Some xs) c)))
            = Inr (map (\<lambda>x. of_int (py_round x)) xs)"
    if h: "in_bounds (min_acceleration_ms c) xs (max_acceleration_ms c)
        \<and> reports c (map (\<lambda>x. of_int (py_round x)) xs)"
  proof -
    let ?vs = "map (\<lambda>x. of_int (py_round x)) xs :: rat list"
    have ok: "\<forall>j<length xs. acceleration_ok c j (xs ! j)"
    proof (intro allI impI)
      fix j assume j: "j < length xs"
      with h b n have "of_int 25 \<le> xs ! j" "xs ! j \<le> of_int 1000"
        by (simp_all add: in_bounds_def)
      from py_round_bounds(1)[OF this(1)] py_round_bounds(2)[OF this(2)] j b n
      show "acceleration_ok c j (xs ! j)" by (simp add: acceleration_ok_def)
    qed
    have s: "set_acceleration (map Some xs) c
               = (Inr (), (after_set ''AC '' ''AC'' ?vs c)\<lparr>acceleration_ms := ?vs\<rparr>)"
      using h by (intro set_acceleration_ok assms ok) (simp add: reports_def)
    have "fst (query ''AC '' ((after_set ''AC '' ''AC'' ?vs c)\<lparr>acceleration_ms := ?vs\<rparr>)) = Inr ?vs"
      using h n
      by (intro query_after[of c] assms vz)
         (auto simp: reports_def after_set_simps six_decimals_of_int is_ascii_def)
    then show ?thesis
      unfolding s get_acceleration_def by (simp add: fst_andthen_query after_set_simps)
  qed
  have pre: "fst (set_precision (map Some xs) c) = Inr ()
        \<and> written (snd (set_precision (map Some xs) c))
            = written c @ [concat (''PC '' # set_words ''PC'' (axes c)
                                              (map (\<lambda>x. of_int (py_round x) / 10 ^ 6) xs)) @ [CR],
                           (''PC '' @ py_join ''? '' (axes c) @ ''?'') @ [CR]]
        \<and> precision_um (snd (set_precision (map Some xs) c)) = map py_round xs
        \<and> fst (get_precision (snd (set_precision (map Some xs) c))) = Inr (map py_round xs)"
    if h: "in_bounds (min_precision_um c) xs (max_precision_um c)
        \<and> reports c (map (\<lambda>x. of_int (py_round x) / 10 ^ 6) xs)"
  proof -
    let ?vs = "map (\<lambda>x. of_int (py_round x) / 10 ^ 6) xs :: rat list"
    have ok: "\<forall>j<length xs. precision_ok c j (xs ! j)"
    proof (intro allI impI)
      fix j assume j: "j < length xs"
      with h b n have "of_int 1 \<le> xs ! j" "xs ! j \<le> of_int 1000000"
        by (simp_all add: in_bounds_def)
      from py_round_bounds(1)[OF this(1)] py_round_bounds(2)[OF this(2)] j b n
      show "precision_ok c j (xs ! j)" by (simp add: precision_ok_def)
    qed
    have s: "set_precision (map Some xs) c
               = (Inr (), (after_set ''PC '' ''PC'' ?vs c)\<lparr>precision_um := map py_round xs\<rparr>)"
      using h by (intro set_precision_ok assms ok) (simp add: reports_def)
    have six: "\<forall>v\<in>set ?vs. six_decimals v" using six_decimals_of_micro by auto
    have "fst (query ''PC '' ((after_set ''PC '' ''PC'' ?vs c)\<lparr>precision_um := map py_round xs\<rparr>)) = Inr ?vs"
      using h n six
      by (intro query_after[of c] assms vz)
         (simp_all add: reports_def after_set_simps is_ascii_def)
    then have "fst (get_precision ((after_set ''PC '' ''PC'' ?vs c)\<lparr>precision_um := map py_round xs\<rparr>))
                 = Inr (map (\<lambda>p. py_round (10 ^ 6 * p)) ?vs)"
      unfolding get_precision_def Let_def by (rule fst_andthen_query)
    also have "map (\<lambda>p. py_round (10 ^ 6 * p)) ?vs = map py_round xs"
      by (simp add: comp_def py_round_of_int)
    finally show ?thesis unfolding s by (simp add: after_set_simps)
  qed
  have stl: "fst (set_settle_time (map Some xs) c) = Inr ()
        \<and> written (snd (set_settle_time (map Some xs) c))
            = written c @ [concat (''WT '' # set_words ''WT'' (axes c)
                                              (map (\<lambda>x. of_int (py_round x)) xs)) @ [CR],
                           (''WT '' @ py_join ''? '' (axes c) @ ''?'') @ [CR]]
        \<and> settle_time_ms (snd (set_settle_time (map Some xs) c)) = rs
        \<and> fst (get_settle_time (snd (set_settle_time (map Some xs) c))) = Inr rs"
    if h: "in_bounds (replicate (length xs) 0) xs (max_settle_time_ms c)
        \<and> reports c rs \<and> length rs = length xs
        \<and> (\<forall>i<length xs. six_decimals (rs ! i) \<and> \<bar>rs ! i - of_int (py_round (xs ! i))\<bar> \<le> 1)"
    for rs
  proof -
    let ?vs = "map (\<lambda>x. of_int (py_round x)) xs :: rat list"
    have ok: "\<forall>j<length xs. settle_time_ok c j (xs ! j)"
    proof (intro allI impI)
      fix j assume j: "j < length xs"
      with h b n have "of_int 0 \<le> xs ! j" "xs ! j \<le> of_int 1000"
        by (simp_all add: in_bounds_def)
      from py_round_bounds(1)[OF this(1)] py_round_bounds(2)[OF this(2)] j b n
      show "settle_time_ok c j (xs ! j)" by (simp add: settle_time_ok_def)
    qed
    have six: "\<forall>v\<in>set rs. six_decimals v"
      using h by (auto simp: in_set_conv_nth)
    have tol: "\<forall>j<length xs. \<bar>rs ! j - of_int (py_round (xs ! j))\<bar> \<le> tol_settle_time_ms c ! j"
      using h b n by simp
    have s: "set_settle_time (map Some xs) c
               = (Inr (), (after_set ''WT '' ''WT'' ?vs c)\<lparr>settle_time_ms := rs\<rparr>)"
      using h n by (intro set_settle_time_ok assms ok six tol) (simp_all add: reports_def)
    have "fst (query ''WT '' ((after_set ''WT '' ''WT'' ?vs c)\<lparr>settle_time_ms := rs\<rparr>)) = Inr rs"
      using h n six
      by (intro query_after[of c] assms vz)
         (simp_all add: reports_def after_set_simps is_ascii_def)
    then show ?thesis
      unfolding s get_settle_time_def by (simp add: fst_andthen_query after_set_simps)
  qed
  from vel acc pre stl show ?thesis by blast
qed

text \<open>
  The stage of \<^verbatim>\<open>__main__\<close>: the velocities 1.2345678 and 2 mm/s, written as 1.234568 and
  2.000000, on a device that reports 1.234568 and 2.000000; the settle times 10 and 20 ms,
  written as 10.000000 and 20.000000, on a device that reports 11 and 20.
\<close>

theorem set_then_get_returns_the_tuple_witness:
  "fst (set_velocity [Some (12345678 / 10 ^ 7), Some 2] (echo_stage [1234568 / 10 ^ 6, 2])) = Inr ()
   \<and> written (snd (set_velocity [Some (12345678 / 10 ^ 7), Some 2]
                         (echo_stage [1234568 / 10 ^ 6, 2])))
       = [''S VX=1.234568 VY=2.000000 '' @ [CR], ''S X? Y?'' @ [CR]]
   \<and> velocity_mmps (snd (set_velocity [Some (12345678 / 10 ^ 7), Some 2]
                               (echo_stage [1234568 / 10 ^ 6, 2])))
       = [1234568 / 10 ^ 6, 2]
   \<and> fst (get_velocity (snd (set_velocity [Some (12345678 / 10 ^ 7), Some 2]
                                (echo_stage [1234568 / 10 ^ 6, 2]))))
       = Inr [1234568 / 10 ^ 6, 2]
   \<and> fst (set_settle_time [Some 10, Some 20] (echo_stage [11, 20])) = Inr ()
   \<and> written (snd (set_settle_time [Some 10, Some 20] (echo_stage [11, 20])))
       = [''WT WTX=10.000000 WTY=20.000000 '' @ [CR], ''WT X? Y?'' @ [CR]]
   \<and> settle_time_ms (snd (set_settle_time [Some 10, Some 20] (echo_stage [11, 20]))) = [11, 20]
   \<and> fst (get_settle_time (snd (set_settle_time [Some 10, Some 20] (echo_stage [11, 20]))))
       = Inr [11, 20]"
proof -
  have r1: "py_round (12345678 / 10 ^ 7 * 10 ^ 6) = 1234568"
    by (rule py_round_near) simp
  have r2: "py_round_to 6 2 = 2" using py_round_to_of_int[of 6 2] by simp
  have v: "map (py_round_to 6) [12345678 / 10 ^ 7, 2] = [1234568 / 10 ^ 6, 2]"
    using r1 r2 by (simp add: py_round_to_def)
  have r3: "py_round 10 = 10" "py_round 20 = 20" "py_round 11 = 11"
    using py_round_of_int[of 10] py_round_of_int[of 20] py_round_of_int[of 11] by simp_all
  have s6: "six_decimals 11" "six_decimals 20"
    using six_decimals_of_int[of 11] six_decimals_of_int[of 20] by simp_all
  have f: "fmt_6f (1234568 / 10 ^ 6) = ''1.234568''" "fmt_6f 2 = ''2.000000''"
          "fmt_6f 10 = ''10.000000''" "fmt_6f 20 = ''20.000000''"
    using fmt_6f_micro[of 1234568] fmt_6f_micro[of 2000000] fmt_6f_micro[of 10000000]
          fmt_6f_micro[of 20000000]
    by (simp_all add: show_simps)
  have e: "written (echo_stage vs) = []" "axes (echo_stage vs) = [''X'', ''Y'']" for vs
    by (simp_all add: echo_stage_def xy_stage_def)
  let ?c = "echo_stage [1234568 / 10 ^ 6, 2]"
  let ?d = "echo_stage [11, 20]"
  note t1 = set_then_get_returns_the_tuple[where c = ?c and xs = "[12345678 / 10 ^ 7, 2]",
              OF echo_stage_props(1,2,3,4,5,6)]
  note t2 = set_then_get_returns_the_tuple[where c = ?d and xs = "[10, 20]",
              OF echo_stage_props(1,2,3,4,5,6)]
  have h1: "in_bounds (replicate (length [12345678 / 10 ^ 7, 2::rat]) 0) [12345678 / 10 ^ 7, 2]
              (max_velocity_mmps ?c)
            \<and> reports ?c (map (py_round_to 6) [12345678 / 10 ^ 7, 2])"
    unfolding v using echo_stage_props(7)[of "[1234568 / 10 ^ 6, 2]"]
    by (simp add: in_bounds_def echo_stage_props(8) less_Suc_eq_0_disj)
  have h2: "in_bounds (replicate (length [10, 20::rat]) 0) [10, 20] (max_settle_time_ms ?d)
        \<and> reports ?d [11, 20] \<and> length [11, 20::rat] = length [10, 20::rat]
        \<and> (\<forall>i<length [10, 20::rat]. six_decimals ([11, 20] ! i)
               \<and> \<bar>[11, 20::rat] ! i - of_int (py_round ([10, 20] ! i))\<bar> \<le> 1)"
    using echo_stage_props(7)[of "[11, 20]"] s6 r3
    by (auto simp: in_bounds_def echo_stage_props(9) less_Suc_eq_0_disj)
  note a = t1[THEN conjunct1, rule_format, OF h1]
  note b = t2[THEN conjunct2, THEN conjunct2, THEN conjunct2, rule_format, of "[11, 20]", OF h2]
  from a b f r3 show ?thesis unfolding v e by (simp add: set_words_def py_join_def)
qed

text \<open>
  C3, as stated, fails in two places. A \<open>move_um\<close> called while a move is under way waits
  for it first: the status poll and the position query are written before the range
  assertion fails. And \<open>set_acceleration\<close> (like \<open>set_settle_time\<close> and \<open>set_precision\<close>)
  rounds before it checks: 24.6 ms, below the least ramp of 25 ms, is rounded to 25,
  accepted and written.
\<close>

theorem range_failure_writes_nothing_counterexample:
  "map_option fst (move_um [Some 60000, None] True True busy_stage) = Some (Inl RangeError)
   \<and> written busy_stage = []
   \<and> map_option (written \<circ> snd) (move_um [Some 60000, None] True True busy_stage)
       = Some [''/'' @ [CR], ''W X Y'' @ [CR]]
   \<and> \<not> min_acceleration_ms (echo_stage [25, 25]) ! 0 \<le> 246 / 10
   \<and> fst (set_acceleration [Some (246 / 10), Some 25] (echo_stage [25, 25])) = Inr ()
   \<and> written (snd (set_acceleration [Some (246 / 10), Some 25] (echo_stage [25, 25])))
       = [''AC ACX=25.000000 ACY=25.000000 '' @ [CR], ''AC X? Y?'' @ [CR]]"
  unfolding busy_stage_move accepted_acceleration
  by (simp add: busy_stage_def echo_stage_def xy_stage_def)

text \<open>
  C3, amended. With one entry for each axis in every tuple:
  a \<open>move_um\<close> on a controller that is not moving, with a target outside the range of its
  axis, raises the range assertion and leaves the controller, and so the lines written,
  as they were; so does each parameter set operation on a tuple of numbers with a value
  that fails the bounds as the operation checks them (the velocity as given, the
  acceleration, settle time and precision rounded to an integer). A \<open>move_um\<close> that raises
  the range assertion on a controller that was moving has written status polls and the
  position query, and no other line: the move command is not written.
\<close>

theorem range_failure_writes_nothing:
  assumes "sized c"
  shows
    "(\<not> moving c \<and> length mv = length (axes c)
        \<and> (\<exists>i<length mv. \<not> in_range c i (target c relative i (mv ! i)))
      \<longrightarrow> move_um mv relative block c = Some (Inl RangeError, c))
   \<and> (length xs = length (axes c) \<and> (\<exists>i<length xs. \<not> velocity_ok c i (xs ! i))
      \<longrightarrow> set_velocity (map Some xs) c = (Inl RangeError, c))
   \<and> (length xs = length (axes c) \<and> (\<exists>i<length xs. \<not> acceleration_ok c i (xs ! i))
      \<longrightarrow> set_acceleration (map Some xs) c = (Inl RangeError, c))
   \<and> (length xs = length (axes c) \<and> (\<exists>i<length xs. \<not> settle_time_ok c i (xs ! i))
      \<longrightarrow> set_settle_time (map Some xs) c = (Inl RangeError, c))
   \<and> (length xs = length (axes c) \<and> (\<exists>i<length xs. \<not> precision_ok c i (xs ! i))
      \<longrightarrow> set_precision (map Some xs) c = (Inl RangeError, c))
   \<and> (\<forall>c'. move_um mv relative block c = Some (Inl RangeError, c')
      \<longrightarrow> (\<exists>ls. written c' = written c @ ls \<and> set ls \<subseteq> finishing_lines c))"
proof -
  note z = assms[unfolded sized_def Let_def]
  have mv: "move_um mv relative block c = Some (Inl RangeError, c)"
    if "\<not> moving c \<and> length mv = length (axes c)
        \<and> (\<exists>i<length mv. \<not> in_range c i (target c relative i (mv ! i)))"
    using that assms move_um_out_of_range by blast
  have vel: "set_velocity (map Some xs) c = (Inl RangeError, c)"
    if h: "length xs = length (axes c) \<and> (\<exists>i<length xs. \<not> velocity_ok c i (xs ! i))"
  proof -
    have "velocity_loop c 0 (map Some xs) = Inl RangeError"
      using h z by (intro velocity_loop_out) auto
    then show ?thesis
      using h by (simp add: set_velocity_def andthen_def assert_def return_def lift_def all_Some)
  qed
  have acc: "set_acceleration (map Some xs) c = (Inl RangeError, c)"
    if h: "length xs = length (axes c) \<and> (\<exists>i<length xs. \<not> acceleration_ok c i (xs ! i))"
  proof -
    have "acceleration_loop c 0 (map Some xs) = Inl RangeError"
      using h z by (intro acceleration_loop_out) auto
    then show ?thesis
      using h by (simp add: set_acceleration_def andthen_def assert_def return_def lift_def all_Some)
  qed
  have stl: "set_settle_time (map Some xs) c = (Inl RangeError, c)"
    if h: "length xs = length (axes c) \<and> (\<exists>i<length xs. \<not> settle_time_ok c i (xs ! i))"
  proof -
    have "settle_time_loop c 0 (map Some xs) = Inl RangeError"
      using h z by (intro settle_time_loop_out) auto
    then show ?thesis
      using h by (simp add: set_settle_time_def andthen_def assert_def return_def lift_def all_Some)
  qed
  have pre: "set_precision (map Some xs) c = (Inl RangeError, c)"
    if h: "length xs = length (axes c) \<and> (\<exists>i<length xs. \<not> precision_ok c i (xs ! i))"
  proof -
    have "precision_loop c 0 (map Some xs) = Inl RangeError"
      using h z by (intro precision_loop_out) auto
    then show ?thesis
      using h by (simp add: set_precision_def andthen_def assert_def return_def lift_def all_Some)
  qed
  have busy: "\<exists>ls. written c' = written c @ ls \<and> set ls \<subseteq> finishing_lines c"
    if "move_um mv relative block c = Some (Inl RangeError, c')" for c'
    using that by (rule move_um_range_error_writes)
  from mv vel acc stl pre busy show ?thesis by blast
qed

text \<open>
  The stage of \<^verbatim>\<open>__main__\<close>, not moving, on a device that answers nothing: a move of X by
  60 mm, a velocity of 8 mm/s where 7 is the most, an acceleration ramp of 24 ms where 25
  is the least.
\<close>

theorem range_failure_writes_nothing_witness:
  "move_um [Some 60000, None] True True (xy_stage (script []))
     = Some (Inl RangeError, xy_stage (script []))
   \<and> set_velocity [Some 8, Some 1] (xy_stage (script [])) = (Inl RangeError, xy_stage (script []))
   \<and> set_acceleration [Some 24, Some 25] (xy_stage (script []))
       = (Inl RangeError, xy_stage (script []))"
proof -
  let ?c = "xy_stage (script [])"
  have z: "sized ?c" by (simp add: xy_stage_def sized_def)
  have m: "\<not> moving ?c \<and> length [Some (60000::rat), None] = length (axes ?c)
        \<and> (\<exists>i<length [Some (60000::rat), None].
              \<not> in_range ?c i (target ?c True i ([Some 60000, None] ! i)))"
    by (auto simp: xy_stage_def in_range_def target_def intro!: exI[of _ 0])
  have v: "length [8, 1::rat] = length (axes ?c)
        \<and> (\<exists>i<length [8, 1::rat]. \<not> velocity_ok ?c i ([8, 1] ! i))"
    by (auto simp: xy_stage_def velocity_ok_def intro!: exI[of _ 0])
  have "py_round 24 = 24" using py_round_of_int[of 24] by simp
  then have a: "length [24, 25::rat] = length (axes ?c)
        \<and> (\<exists>i<length [24, 25::rat]. \<not> acceleration_ok ?c i ([24, 25] ! i))"
    by (auto simp: xy_stage_def acceleration_ok_def intro!: exI[of _ 0])
  note t1 = range_failure_writes_nothing[OF z, where mv = "[Some 60000, None]"
              and relative = True and block = True and xs = "[8, 1]"]
  note t2 = range_failure_writes_nothing[OF z, where mv = "[Some 60000, None]"
              and relative = True and block = True and xs = "[24, 25]"]
  from t1[THEN conjunct1, rule_format, OF m]
       t1[THEN conjunct2, THEN conjunct1, rule_format, OF v]
       t2[THEN conjunct2, THEN conjunct2, THEN conjunct1, rule_format, OF a]
  show ?thesis by simp
qed

end
